theory Spec2Isabelle
  imports Complex_Main "HOL-Library.Word" "HOL-Library.List_Lexorder"
begin

unbundle bit_operations_syntax

section \<open>Basic types\<close>

text \<open>
  Bytes of a \<open>std::string\<close> are unsigned 8-bit values; \<open>Xapian::docid\<close>,
  \<open>Xapian::termcount\<close>, \<open>Xapian::doccount\<close> and \<open>unsigned\<close> are 32-bit unsigned
  integers, so their arithmetic wraps around.

  A \<open>const char *\<close> into a buffer whose end pointer is fixed is modelled by the bytes
  from the pointer to the end: \<open>pos == end\<close> is \<open>pos = []\<close>, and reading advances by
  dropping bytes.
\<close>

type_synonym byte = "8 word"
type_synonym docid = "32 word"
type_synonym termcount = "32 word"
type_synonym doccount = "32 word"
type_synonym doclen_entries = "(docid \<times> termcount) list"

text \<open>
  The exceptions of the source, and \<open>UndefinedBehaviour\<close> for the places where the
  source goes on after a failed read it does not check, reads past the end of a buffer
  or dereferences an end iterator.
\<close>

datatype error = DatabaseCorruptError | RangeError | DocNotFoundError | UndefinedBehaviour

section \<open>Integer codec\<close>

text \<open>
  Modelled from the spec: the integer codec (\<open>pack.h\<close>: \<open>pack_uint\<close>, \<open>unpack_uint\<close>,
  \<open>pack_uint_in_bytes\<close>, \<open>unpack_uint_in_bytes\<close>, \<open>pack_bool\<close>, \<open>unpack_bool\<close>) is not
  among the sources. \<open>pack_uint\<close> writes an unsigned integer in a self-delimiting form:
  seven bits per byte, low bits first, the top bit set on every byte but the last.
  \<open>unpack_uint\<close> fails with "data ran out" (\<open>DatabaseCorruptError\<close> once reported) on
  truncated input and with "value too large" (\<open>RangeError\<close>) when the value does not fit.
\<close>

fun pack_uint_nat :: "nat \<Rightarrow> byte list" where
  "pack_uint_nat n =
     (if n < 128 then [of_nat n] else of_nat (n mod 128 + 128) # pack_uint_nat (n div 128))"

declare pack_uint_nat.simps [simp del]

definition pack_uint :: "32 word \<Rightarrow> byte list" where
  "pack_uint v = pack_uint_nat (unat v)"

fun unpack_uint_nat :: "byte list \<Rightarrow> (nat \<times> byte list) option" where
  "unpack_uint_nat [] = None"
| "unpack_uint_nat (b # bs) =
     (if b < 128 then Some (unat b, bs)
      else case unpack_uint_nat bs of
             None \<Rightarrow> None
           | Some (n, rest) \<Rightarrow> Some (unat b - 128 + 128 * n, rest))"

definition unpack_uint :: "byte list \<Rightarrow> error + (32 word \<times> byte list)" where
  "unpack_uint p =
     (case unpack_uint_nat p of
        None \<Rightarrow> Inl DatabaseCorruptError
      | Some (n, rest) \<Rightarrow> if n < 2 ^ 32 then Inr (of_nat n, rest) else Inl RangeError)"

text \<open>
  Modelled from the spec: \<open>pack_uint_in_bytes(v, n, out)\<close> writes exactly \<open>n\<close> bytes
  (low byte first here); \<open>unpack_uint_in_bytes(&pos, n, &v)\<close> reads \<open>n\<close> bytes and takes
  no end pointer, so reading past the end is undefined.
\<close>

fun pack_in_bytes_nat :: "nat \<Rightarrow> nat \<Rightarrow> byte list" where
  "pack_in_bytes_nat v 0 = []"
| "pack_in_bytes_nat v (Suc n) = of_nat (v mod 256) # pack_in_bytes_nat (v div 256) n"

definition pack_uint_in_bytes :: "32 word \<Rightarrow> nat \<Rightarrow> byte list" where
  "pack_uint_in_bytes v n = pack_in_bytes_nat (unat v) n"

fun le_value :: "byte list \<Rightarrow> nat" where
  "le_value [] = 0"
| "le_value (b # bs) = unat b + 256 * le_value bs"

definition unpack_uint_in_bytes :: "nat \<Rightarrow> byte list \<Rightarrow> error + (32 word \<times> byte list)" where
  "unpack_uint_in_bytes n p =
     (if length p < n then Inl UndefinedBehaviour
      else Inr (of_nat (le_value (take n p)), drop n p))"

text \<open>
  Modelled from the spec: \<open>pack_bool\<close> writes one byte, the character \<open>0\<close> or \<open>1\<close>.
\<close>

definition pack_bool :: "bool \<Rightarrow> byte list" where
  "pack_bool b = [if b then 0x31 else 0x30]"

definition unpack_bool :: "byte list \<Rightarrow> error + (bool \<times> byte list)" where
  "unpack_bool p =
     (case p of
        [] \<Rightarrow> Inl DatabaseCorruptError
      | b # rest \<Rightarrow>
          if b = 0x30 then Inr (False, rest)
          else if b = 0x31 then Inr (True, rest)
          else Inl DatabaseCorruptError)"

text \<open>
  A read whose result the source does not check: when it fails the source goes on with
  a null or stale pointer, which the model records as \<open>UndefinedBehaviour\<close>.
\<close>

definition unchecked_read :: "error + 'a \<Rightarrow> error + 'a" where
  "unchecked_read x = (case x of Inl e \<Rightarrow> Inl UndefinedBehaviour | Inr v \<Rightarrow> Inr v)"

section \<open>Doclen chunk codec\<close>

text \<open>
  Modelled from the spec: \<open>SEPERATOR\<close> is declared in \<open>brass_postlist.h\<close>, which is not
  among the sources. The source tests the tombstone of a change ("the doc length is -1")
  with \<open>!= SEPERATOR\<close>, and the spec gives the tombstone as \<open>-1\<close> (max unsigned).
\<close>

definition SEPERATOR :: "32 word" where
  "SEPERATOR = - 1"

text \<open>\<open>get_max_bytes\<close>: the number of bytes needed for an integer, at least one.\<close>

function get_max_bytes_loop :: "32 word \<Rightarrow> 32 word \<Rightarrow> 32 word" where
  "get_max_bytes_loop n l = (if n \<noteq> 0 then get_max_bytes_loop (drop_bit 8 n) (l + 1) else l)"
  by pat_completeness auto
termination
proof (relation "measure (\<lambda>(n, l). unat n)")
  show "wf (measure (\<lambda>(n :: 32 word, l :: 32 word). unat n))"
    by simp
next
  fix n l :: "32 word"
  assume "n \<noteq> 0"
  then have "0 < unat n"
    by (simp add: unat_gt_0)
  then have "unat n div 2 ^ 8 < unat n"
    by simp
  then show "((drop_bit 8 n, l + 1), (n, l)) \<in> measure (\<lambda>(n, l). unat n)"
    by (simp add: drop_bit_eq_div unat_div)
qed

declare get_max_bytes_loop.simps [simp del]

definition get_max_bytes :: "32 word \<Rightarrow> 32 word" where
  "get_max_bytes n = (if n = 0 then 1 else get_max_bytes_loop n 0)"

text \<open>
  The test \<open>(double)good_bytes/used_bytes < DOCLEN_CHUNK_MIN_GOOD_BYTES_RATIO\<close>. The
  constant is declared in the missing header and is a parameter here; the quotient of
  the two counters is taken exactly. A division by zero gives an infinity or a NaN,
  for which \<open><\<close> is false.
\<close>

definition ratio_below :: "32 word \<Rightarrow> 32 word \<Rightarrow> rat \<Rightarrow> bool" where
  "ratio_below good_bytes used_bytes min_ratio =
     (used_bytes \<noteq> 0 \<and> of_nat (unat good_bytes) / of_nat (unat used_bytes) < min_ratio)"

text \<open>
  The inner loop of \<open>FixedWidthChunk::encode\<close>: \<open>it\<close> runs over the entries after
  \<open>start_pos\<close> and stops at the first one that does not extend the block. It returns
  the iterator, \<open>length_contiguous\<close>, \<open>used_bytes\<close> and \<open>good_bytes\<close>.
\<close>

fun encode_scan ::
  "rat \<Rightarrow> 32 word \<Rightarrow> doclen_entries \<Rightarrow> 32 word \<Rightarrow> docid \<Rightarrow> 32 word \<Rightarrow> 32 word
   \<Rightarrow> doclen_entries \<times> 32 word \<times> 32 word \<times> 32 word" where
  "encode_scan min_ratio max_bytes [] length_contiguous last_docid used_bytes good_bytes =
     ([], length_contiguous, used_bytes, good_bytes)"
| "encode_scan min_ratio max_bytes ((cur_docid, len) # it) length_contiguous last_docid
       used_bytes good_bytes =
     (let cur_bytes = get_max_bytes len in
      if cur_docid \<noteq> last_docid + 1 \<or> cur_bytes > max_bytes
      then ((cur_docid, len) # it, length_contiguous, used_bytes, good_bytes)
      else
        let used_bytes' = used_bytes + max_bytes;
            good_bytes' = good_bytes + cur_bytes
        in if ratio_below good_bytes' used_bytes' min_ratio
           then ((cur_docid, len) # it, length_contiguous, 0, 0)
           else encode_scan min_ratio max_bytes it (length_contiguous + 1) cur_docid
                  used_bytes' good_bytes')"

text \<open>The two emission loops \<open>while (start_pos != it)\<close>, over the entries of the block.\<close>

fun encode_fixed_run :: "nat \<Rightarrow> doclen_entries \<Rightarrow> docid \<times> byte list \<Rightarrow> docid \<times> byte list" where
  "encode_fixed_run max_bytes [] (docid_before_start_pos, desired_chunk) =
     (docid_before_start_pos, desired_chunk)"
| "encode_fixed_run max_bytes ((d, l) # run) (docid_before_start_pos, desired_chunk) =
     encode_fixed_run max_bytes run (d, desired_chunk @ pack_uint_in_bytes l max_bytes)"

fun encode_normal_run :: "doclen_entries \<Rightarrow> docid \<times> byte list \<Rightarrow> docid \<times> byte list" where
  "encode_normal_run [] (docid_before_start_pos, desired_chunk) =
     (docid_before_start_pos, desired_chunk)"
| "encode_normal_run ((d, l) # run) (docid_before_start_pos, desired_chunk) =
     encode_normal_run run
       (d, desired_chunk @ pack_uint (d - docid_before_start_pos) @ pack_uint l)"

lemma encode_scan_length:
  "length (fst (encode_scan r mb it lc prev u g)) \<le> length it"
  by (induction it arbitrary: lc prev u g) (auto simp: Let_def le_SucI)

text \<open>
  The outer loop of \<open>FixedWidthChunk::encode\<close>. The entries between \<open>start_pos\<close> and \<open>it\<close>
  are the first ones of the list at \<open>start_pos\<close>, as many as \<open>it\<close> has advanced.
  \<open>DOCLEN_CHUNK_MIN_CONTIGUOUS_LENGTH\<close> is declared in the missing header and is the
  parameter \<open>min_contig\<close>.
\<close>

function encode_loop ::
  "32 word \<Rightarrow> rat \<Rightarrow> doclen_entries \<Rightarrow> docid \<Rightarrow> byte list \<Rightarrow> byte list" where
  "encode_loop min_contig min_ratio [] docid_before_start_pos desired_chunk = desired_chunk"
| "encode_loop min_contig min_ratio ((d, l) # rest) docid_before_start_pos desired_chunk =
     (let max_bytes = get_max_bytes l;
          scanned = encode_scan min_ratio max_bytes rest 1 d 0 0;
          it = fst scanned;
          length_contiguous = fst (snd scanned);
          run = take (Suc (length rest) - length it) ((d, l) # rest)
      in if length_contiguous > min_contig
         then
           let header = desired_chunk @ pack_uint SEPERATOR
                  @ pack_uint (d - docid_before_start_pos)
                  @ pack_uint_in_bytes length_contiguous 2
                  @ pack_uint_in_bytes max_bytes 1;
               emitted = encode_fixed_run (unat max_bytes) run (docid_before_start_pos, header)
           in encode_loop min_contig min_ratio it (fst emitted) (snd emitted)
         else
           let emitted = encode_normal_run run (docid_before_start_pos, desired_chunk)
           in encode_loop min_contig min_ratio it (fst emitted) (snd emitted))"
  by pat_completeness auto
termination
proof (relation "measure (\<lambda>(mc, r, it, before, chunk). length it)")
  show "wf (measure (\<lambda>(mc :: 32 word, r :: rat, it :: doclen_entries, before :: docid,
      chunk :: byte list). length it))"
    by simp
qed (auto simp: less_Suc_eq_le encode_scan_length)

declare encode_loop.simps [simp del]

text \<open>
  \<open>FixedWidthChunk::encode\<close>, on the entries from \<open>pl_start\<close> to \<open>pl_end\<close>: it appends to
  \<open>desired_chunk\<close> and returns false on an empty range.
\<close>

definition encode :: "32 word \<Rightarrow> rat \<Rightarrow> doclen_entries \<Rightarrow> byte list \<Rightarrow> bool \<times> byte list" where
  "encode min_contig min_ratio pl desired_chunk =
     (case pl of
        [] \<Rightarrow> (False, desired_chunk)
      | (d, l) # rest \<Rightarrow> (True, encode_loop min_contig min_ratio pl d desired_chunk))"


section \<open>Chunk headers\<close>

text \<open>
  \<open>report_read_error\<close> throws \<open>DatabaseCorruptError\<close> when the position is null (data
  ran out) and \<open>RangeError\<close> otherwise: the error \<open>unpack_uint\<close> returns here. A null
  result pointer discards the value read.
\<close>

definition read_number_of_entries :: "byte list \<Rightarrow> error + (doccount \<times> termcount \<times> byte list)" where
  "read_number_of_entries p =
     (case unpack_uint p of
        Inl e \<Rightarrow> Inl e
      | Inr (number_of_entries, p1) \<Rightarrow>
          (case unpack_uint p1 of
             Inl e \<Rightarrow> Inl e
           | Inr (collection_freq, p2) \<Rightarrow> Inr (number_of_entries, collection_freq, p2)))"

definition read_start_of_first_chunk ::
  "byte list \<Rightarrow> error + (doccount \<times> termcount \<times> docid \<times> byte list)" where
  "read_start_of_first_chunk p =
     (case read_number_of_entries p of
        Inl e \<Rightarrow> Inl e
      | Inr (number_of_entries, collection_freq, p1) \<Rightarrow>
          (case unpack_uint p1 of
             Inl e \<Rightarrow> Inl e
           | Inr (did, p2) \<Rightarrow> Inr (number_of_entries, collection_freq, did + 1, p2)))"

definition read_start_of_chunk :: "byte list \<Rightarrow> docid \<Rightarrow> error + (bool \<times> docid \<times> byte list)" where
  "read_start_of_chunk p first_did_in_chunk =
     (case unpack_bool p of
        Inl e \<Rightarrow> Inl e
      | Inr (is_last_chunk, p1) \<Rightarrow>
          (case unpack_uint p1 of
             Inl e \<Rightarrow> Inl e
           | Inr (increase_to_last, p2) \<Rightarrow>
               Inr (is_last_chunk, first_did_in_chunk + increase_to_last, p2)))"

definition make_start_of_first_chunk :: "doccount \<Rightarrow> termcount \<Rightarrow> docid \<Rightarrow> byte list" where
  "make_start_of_first_chunk entries collectionfreq new_did =
     pack_uint entries @ pack_uint collectionfreq @ pack_uint (new_did - 1)"

definition make_start_of_chunk :: "bool \<Rightarrow> docid \<Rightarrow> docid \<Rightarrow> byte list" where
  "make_start_of_chunk new_is_last_chunk new_first_did new_final_did =
     pack_bool new_is_last_chunk @ pack_uint (new_final_did - new_first_did)"

section \<open>FixedWidthChunkReader\<close>

record FixedWidthChunkReader =
  pos :: "byte list"
  ori_pos :: "byte list"
  pos_of_block :: "byte list"
  cur_did :: docid
  did_before_block :: docid
  cur_length :: termcount
  is_at_end :: bool
  is_in_block :: bool
  len_info :: "32 word"
  bytes_info :: "32 word"
  first_did_in_chunk :: docid

lemma unpack_uint_nat_shorter:
  "unpack_uint_nat p = Some (n, rest) \<Longrightarrow> length rest < length p"
  by (induction p arbitrary: n rest) (auto split: if_splits option.splits)

lemma unpack_uint_shorter:
  "unpack_uint p = Inr (v, rest) \<Longrightarrow> length rest < length p"
  by (auto simp: unpack_uint_def split: option.splits if_splits dest: unpack_uint_nat_shorter)

lemma unchecked_unpack_uint_shorter:
  "unchecked_read (unpack_uint p) = Inr (v, rest) \<Longrightarrow> length rest < length p"
  by (auto simp: unchecked_read_def split: sum.splits dest: unpack_uint_shorter)

lemma unpack_uint_in_bytes_shorter:
  "unpack_uint_in_bytes n p = Inr (v, rest) \<Longrightarrow> length rest \<le> length p"
  by (auto simp: unpack_uint_in_bytes_def split: if_splits)

text \<open>\<open>pos += n\<close>: moving a pointer past the end of its buffer is undefined.\<close>

definition advance :: "nat \<Rightarrow> byte list \<Rightarrow> error + byte list" where
  "advance n p = (if length p < n then Inl UndefinedBehaviour else Inr (drop n p))"

lemma advance_shorter: "advance n p = Inr rest \<Longrightarrow> length rest \<le> length p"
  by (auto simp: advance_def split: if_splits)

text \<open>\<open>FixedWidthChunkReader::next\<close>.\<close>

definition fwcr_next :: "FixedWidthChunkReader \<Rightarrow> error + (bool \<times> FixedWidthChunkReader)" where
  "fwcr_next r =
     (if is_at_end r then Inr (False, r)
      else if pos r = [] then Inr (False, r\<lparr>is_at_end := True\<rparr>)
      else if is_in_block r \<and> len_info r \<noteq> 0 then
        (let r1 = r\<lparr>cur_did := cur_did r + 1, len_info := len_info r - 1\<rparr>;
             r2 = (if len_info r1 = 0 then r1\<lparr>is_in_block := False\<rparr> else r1)
         in case unpack_uint_in_bytes (unat (bytes_info r2)) (pos r2) of
              Inl e \<Rightarrow> Inl e
            | Inr (v, p) \<Rightarrow> Inr (True, r2\<lparr>pos := p, cur_length := v\<rparr>))
      else
        (let r0 = r\<lparr>pos_of_block := pos r\<rparr> in
         case unchecked_read (unpack_uint (pos r0)) of
           Inl e \<Rightarrow> Inl e
         | Inr (incre_did, p1) \<Rightarrow>
             if incre_did \<noteq> SEPERATOR then
               (case unchecked_read (unpack_uint p1) of
                  Inl e \<Rightarrow> Inl e
                | Inr (v, p2) \<Rightarrow>
                    Inr (True, r0\<lparr>is_in_block := False, cur_did := cur_did r0 + incre_did,
                                 pos := p2, cur_length := v\<rparr>))
             else
               (case unchecked_read (unpack_uint p1) of
                  Inl e \<Rightarrow> Inl e
                | Inr (incre_did2, p2) \<Rightarrow>
               (case unpack_uint_in_bytes 2 p2 of
                  Inl e \<Rightarrow> Inl e
                | Inr (li, p3) \<Rightarrow>
               (case unpack_uint_in_bytes 1 p3 of
                  Inl e \<Rightarrow> Inl e
                | Inr (bi, p4) \<Rightarrow>
               (case unpack_uint_in_bytes (unat bi) p4 of
                  Inl e \<Rightarrow> Inl e
                | Inr (v, p5) \<Rightarrow>
                    (let r1 = r0\<lparr>is_in_block := True, len_info := li - 1, bytes_info := bi,
                                 did_before_block := cur_did r0,
                                 cur_did := cur_did r0 + incre_did2,
                                 pos := p5, cur_length := v\<rparr>
                     in Inr (True, if len_info r1 = 0 then r1\<lparr>is_in_block := False\<rparr> else r1))))))))"

text \<open>
  The loop \<open>while (pos != end)\<close> of \<open>FixedWidthChunkReader::jump_to\<close>; every turn reads
  at least one byte.
\<close>

function jump_to_loop ::
  "docid \<Rightarrow> FixedWidthChunkReader \<Rightarrow> error + (bool \<times> FixedWidthChunkReader)" where
  "jump_to_loop desired_did r =
     (if pos r = [] then Inr (False, r)
      else
        (let r0 = r\<lparr>pos_of_block := pos r\<rparr> in
         case unchecked_read (unpack_uint (pos r0)) of
           Inl e \<Rightarrow> Inl e
         | Inr (incre_did, p1) \<Rightarrow>
             if incre_did \<noteq> SEPERATOR then
               (case unchecked_read (unpack_uint p1) of
                  Inl e \<Rightarrow> Inl e
                | Inr (v, p2) \<Rightarrow>
                    (let r1 = r0\<lparr>is_in_block := False, cur_did := cur_did r0 + incre_did,
                                 pos := p2, cur_length := v\<rparr>
                     in if cur_did r1 = desired_did then Inr (True, r1)
                        else if cur_did r1 > desired_did then Inr (False, r1)
                        else jump_to_loop desired_did r1))
             else
               (case unchecked_read (unpack_uint p1) of
                  Inl e \<Rightarrow> Inl e
                | Inr (incre_did2, p2) \<Rightarrow>
               (case unpack_uint_in_bytes 2 p2 of
                  Inl e \<Rightarrow> Inl e
                | Inr (li, p3) \<Rightarrow>
               (case unpack_uint_in_bytes 1 p3 of
                  Inl e \<Rightarrow> Inl e
                | Inr (bi, p4) \<Rightarrow>
                    (let r1 = r0\<lparr>is_in_block := True, len_info := li, bytes_info := bi,
                                 did_before_block := cur_did r0,
                                 cur_did := cur_did r0 + incre_did2, pos := p4\<rparr>
                     in if desired_did < cur_did r1 then
                          (case unpack_uint_in_bytes (unat bi) p4 of
                             Inl e \<Rightarrow> Inl e
                           | Inr (v, p5) \<Rightarrow>
                               Inr (False, r1\<lparr>pos := p5, cur_length := v, len_info := li - 1\<rparr>))
                        else if desired_did \<le> cur_did r1 + li - 1 then
                          (case advance (unat (bi * (desired_did - cur_did r1))) p4 of
                             Inl e \<Rightarrow> Inl e
                           | Inr p5 \<Rightarrow>
                          (case unpack_uint_in_bytes (unat bi) p5 of
                             Inl e \<Rightarrow> Inl e
                           | Inr (v, p6) \<Rightarrow>
                               (let r2 = r1\<lparr>pos := p6, cur_length := v,
                                            len_info := li - (desired_did - cur_did r1 + 1)\<rparr>;
                                    r3 = (if len_info r2 = 0 then r2\<lparr>is_in_block := False\<rparr>
                                          else r2)
                                in Inr (True, r3\<lparr>cur_did := desired_did\<rparr>))))
                        else
                          (case advance (unat (bi * li)) p4 of
                             Inl e \<Rightarrow> Inl e
                           | Inr p5 \<Rightarrow>
                               jump_to_loop desired_did
                                 (r1\<lparr>pos := p5, cur_did := cur_did r1 + (li - 1),
                                     is_in_block := False\<rparr>))))))))"
  by pat_completeness auto
termination
proof (relation "measure (\<lambda>(d, r). length (pos r))")
  show "wf (measure (\<lambda>(d :: docid, r :: FixedWidthChunkReader). length (pos r)))"
    by simp
next
  fix desired_did :: docid and r r0 :: FixedWidthChunkReader and x2 incre_did p1 x2a v p2 r1
  assume "r0 = r\<lparr>pos_of_block := pos r\<rparr>"
    and "unchecked_read (unpack_uint (pos r0)) = Inr x2" and "(incre_did, p1) = x2"
    and "unchecked_read (unpack_uint p1) = Inr x2a" and "(v, p2) = x2a"
    and "r1 = r0\<lparr>is_in_block := False, cur_did := cur_did r0 + incre_did, pos := p2,
                  cur_length := v\<rparr>"
  then show "((desired_did, r1), (desired_did, r)) \<in> measure (\<lambda>(d, r). length (pos r))"
    using unchecked_unpack_uint_shorter [of "pos r" incre_did p1]
      unchecked_unpack_uint_shorter [of p1 v p2]
    by auto
next
  fix desired_did :: docid and r r0 :: FixedWidthChunkReader
    and x2 incre_did p1 x2a incre_did2 p2 x2b li p3 x2c bi p4 r1 p5
  assume "r0 = r\<lparr>pos_of_block := pos r\<rparr>"
    and "unchecked_read (unpack_uint (pos r0)) = Inr x2" and "(incre_did, p1) = x2"
    and "unchecked_read (unpack_uint p1) = Inr x2a" and "(incre_did2, p2) = x2a"
    and "unpack_uint_in_bytes 2 p2 = Inr x2b" and "(li, p3) = x2b"
    and "unpack_uint_in_bytes 1 p3 = Inr x2c" and "(bi, p4) = x2c"
    and "advance (unat (bi * li)) p4 = Inr p5"
  then show "((desired_did, r1\<lparr>pos := p5, cur_did := cur_did r1 + (li - 1), is_in_block := False\<rparr>),
      (desired_did, r)) \<in> measure (\<lambda>(d, r). length (pos r))"
    using unchecked_unpack_uint_shorter [of "pos r" incre_did p1]
      unchecked_unpack_uint_shorter [of p1 incre_did2 p2]
      unpack_uint_in_bytes_shorter [of 2 p2 li p3]
      unpack_uint_in_bytes_shorter [of 1 p3 bi p4]
      advance_shorter [of "unat (bi * li)" p4 p5]
    by auto
qed

declare jump_to_loop.simps [simp del]

text \<open>\<open>FixedWidthChunkReader::jump_to\<close>.\<close>

definition jump_to :: "docid \<Rightarrow> FixedWidthChunkReader \<Rightarrow> error + (bool \<times> FixedWidthChunkReader)" where
  "jump_to desired_did r =
     (if cur_did r = desired_did then Inr (True, r)
      else
        jump_to_loop desired_did
          (if is_in_block r then
             (if did_before_block r \<ge> desired_did
              then r\<lparr>pos := ori_pos r, cur_did := first_did_in_chunk r\<rparr>
              else r\<lparr>pos := pos_of_block r, cur_did := did_before_block r\<rparr>)
           else if cur_did r > desired_did
             then r\<lparr>pos := ori_pos r, cur_did := first_did_in_chunk r\<rparr>
           else r))"

text \<open>
  Modelled from the spec: the constructor and the accessors of \<open>FixedWidthChunkReader\<close>
  are in the missing header. The reader is built on the chunk body and the first docid
  of the chunk and reads the first entry at once (its owner reads \<open>get_docid()\<close>,
  \<open>get_doclen()\<close> and \<open>at_end()\<close> right after building it); the accessors return the
  fields \<open>cur_did\<close>, \<open>cur_length\<close> and \<open>is_at_end\<close>.
\<close>

definition fwcr_init :: "byte list \<Rightarrow> docid \<Rightarrow> FixedWidthChunkReader" where
  "fwcr_init p first_did =
     \<lparr>pos = p, ori_pos = p, pos_of_block = p, cur_did = first_did,
      did_before_block = first_did, cur_length = 0, is_at_end = False, is_in_block = False,
      len_info = 0, bytes_info = 0, first_did_in_chunk = first_did\<rparr>"

definition new_FixedWidthChunkReader ::
  "byte list \<Rightarrow> docid \<Rightarrow> error + FixedWidthChunkReader" where
  "new_FixedWidthChunkReader p first_did =
     (case fwcr_next (fwcr_init p first_did) of Inl e \<Rightarrow> Inl e | Inr (b, r) \<Rightarrow> Inr r)"

definition get_docid :: "FixedWidthChunkReader \<Rightarrow> docid" where
  "get_docid r = cur_did r"

definition get_doclen :: "FixedWidthChunkReader \<Rightarrow> termcount" where
  "get_doclen r = cur_length r"

definition at_end :: "FixedWidthChunkReader \<Rightarrow> bool" where
  "at_end r = is_at_end r"


section \<open>DoclenChunkWriter\<close>

text \<open>
  A \<open>std::map<docid, termcount>\<close> is the list of its entries in key order. \<open>insert\<close>
  puts a pair at its place in the order and leaves the map alone when the key is there
  (the position hint does not change the result).
\<close>

fun map_insert :: "docid \<times> termcount \<Rightarrow> doclen_entries \<Rightarrow> doclen_entries" where
  "map_insert (k, v) [] = [(k, v)]"
| "map_insert (k, v) ((k', v') # m) =
     (if k < k' then (k, v) # (k', v') # m
      else if k = k' then (k', v') # m
      else (k', v') # map_insert (k, v) m)"

text \<open>The loop \<open>while (len--)\<close> over the lengths of a fixed-width block.\<close>

fun decode_block ::
  "nat \<Rightarrow> nat \<Rightarrow> byte list \<Rightarrow> docid \<Rightarrow> doclen_entries
   \<Rightarrow> error + (byte list \<times> docid \<times> doclen_entries)" where
  "decode_block 0 bytes p did new_doclen = Inr (p, did, new_doclen)"
| "decode_block (Suc len) bytes p did new_doclen =
     (case unpack_uint_in_bytes bytes p of
        Inl e \<Rightarrow> Inl e
      | Inr (doc_len, p') \<Rightarrow>
          decode_block len bytes p' (did + 1) (map_insert (did, doc_len) new_doclen))"

lemma decode_block_shorter:
  "decode_block len bytes p did nd = Inr (p', did', nd') \<Longrightarrow> length p' \<le> length p"
proof (induction len arbitrary: p did nd)
  case 0
  then show ?case by simp
next
  case (Suc len)
  then show ?case
    by (fastforce split: sum.splits dest: unpack_uint_in_bytes_shorter)
qed

text \<open>
  The loop of \<open>get_new_doclen\<close> that reads the old map of the chunk: pairs in the normal
  format, and after a \<open>SEPERATOR\<close> a block in the fixed-width format.
\<close>

function decode_loop :: "byte list \<Rightarrow> docid \<Rightarrow> doclen_entries \<Rightarrow> error + doclen_entries" where
  "decode_loop p did new_doclen =
     (if p = [] then Inr new_doclen
      else
        case unchecked_read (unpack_uint p) of
          Inl e \<Rightarrow> Inl e
        | Inr (inc_did, p1) \<Rightarrow>
            if inc_did \<noteq> SEPERATOR then
              (case unchecked_read (unpack_uint p1) of
                 Inl e \<Rightarrow> Inl e
               | Inr (doc_len, p2) \<Rightarrow>
                   decode_loop p2 (did + inc_did)
                     (map_insert (did + inc_did, doc_len) new_doclen))
            else
              (case unchecked_read (unpack_uint p1) of
                 Inl e \<Rightarrow> Inl e
               | Inr (inc_did2, p2) \<Rightarrow>
              (case unpack_uint_in_bytes 2 p2 of
                 Inl e \<Rightarrow> Inl e
               | Inr (len, p3) \<Rightarrow>
              (case unpack_uint_in_bytes 1 p3 of
                 Inl e \<Rightarrow> Inl e
               | Inr (bytes, p4) \<Rightarrow>
              (case decode_block (unat len) (unat bytes) p4 (did + inc_did2) new_doclen of
                 Inl e \<Rightarrow> Inl e
               | Inr (p5, did', new_doclen') \<Rightarrow>
                   decode_loop p5 (did' - 1) new_doclen')))))"
  by pat_completeness auto
termination
proof (relation "measure (\<lambda>(p, d, nd). length p)")
  show "wf (measure (\<lambda>(p :: byte list, d :: docid, nd :: doclen_entries). length p))"
    by simp
next
  fix p :: "byte list" and x2 inc_did p1 x2a doc_len p2 and did :: docid
    and new_doclen :: doclen_entries
  assume "unchecked_read (unpack_uint p) = Inr x2" and "(inc_did, p1) = x2"
    and "unchecked_read (unpack_uint p1) = Inr x2a" and "(doc_len, p2) = x2a"
  then show "((p2, did + inc_did, map_insert (did + inc_did, doc_len) new_doclen),
      (p, did, new_doclen)) \<in> measure (\<lambda>(p, d, nd). length p)"
    using unchecked_unpack_uint_shorter [of p inc_did p1]
      unchecked_unpack_uint_shorter [of p1 doc_len p2]
    by auto
next
  fix p :: "byte list" and x2 inc_did p1 x2a inc_did2 p2 x2b len p3 x2c bytes p4 x2d p5 y
    did' new_doclen' and did :: docid and new_doclen :: doclen_entries
  assume "unchecked_read (unpack_uint p) = Inr x2" and "(inc_did, p1) = x2"
    and "unchecked_read (unpack_uint p1) = Inr x2a" and "(inc_did2, p2) = x2a"
    and "unpack_uint_in_bytes 2 p2 = Inr x2b" and "(len, p3) = x2b"
    and "unpack_uint_in_bytes 1 p3 = Inr x2c" and "(bytes, p4) = x2c"
    and "decode_block (unat len) (unat bytes) p4 (did + inc_did2) new_doclen = Inr x2d"
    and "(p5, y) = x2d" and "(did', new_doclen') = y"
  then show "((p5, did' - 1, new_doclen'), (p, did, new_doclen))
      \<in> measure (\<lambda>(p, d, nd). length p)"
    using unchecked_unpack_uint_shorter [of p inc_did p1]
      unchecked_unpack_uint_shorter [of p1 inc_did2 p2]
      unpack_uint_in_bytes_shorter [of 2 p2 len p3]
      unpack_uint_in_bytes_shorter [of 1 p3 bytes p4]
      decode_block_shorter [of "unat len" "unat bytes" p4 "did + inc_did2" new_doclen p5
        did' new_doclen']
    by auto
qed

declare decode_loop.simps [simp del]

text \<open>
  The merge of the changes into the old map. The iterator \<open>ori_it\<close> into \<open>new_doclen\<close> is
  the split of the map at the element it points to: \<open>done\<close> holds the entries before it,
  \<open>todo\<close> the entry it points to and those after; \<open>ori_it == new_doclen.end()\<close> is
  \<open>todo = []\<close>. A change that is not at \<open>ori_it\<close> has a smaller key, so its place is
  among the entries before \<open>ori_it\<close>.

  The inner loop \<open>while (chg_it->first > ori_it->first)\<close> reads \<open>ori_it->first\<close> before
  anything else: at the end iterator that is undefined.
\<close>

fun merge_advance ::
  "docid \<Rightarrow> doclen_entries \<Rightarrow> doclen_entries \<Rightarrow> error + (doclen_entries \<times> doclen_entries)" where
  "merge_advance chg_did done [] = Inl UndefinedBehaviour"
| "merge_advance chg_did done ((k, v) # todo) =
     (if chg_did > k then
        (if todo = [] then Inr (done @ [(k, v)], [])
         else merge_advance chg_did (done @ [(k, v)]) todo)
      else Inr (done, (k, v) # todo))"

text \<open>The loop that runs once \<open>ori_it\<close> is at the end: the changes left are inserted.\<close>

fun merge_rest :: "doclen_entries \<Rightarrow> doclen_entries \<Rightarrow> doclen_entries" where
  "merge_rest [] new_doclen = new_doclen"
| "merge_rest ((d, v) # chg) new_doclen =
     (if v = SEPERATOR then merge_rest chg new_doclen
      else merge_rest chg (map_insert (d, v) new_doclen))"

fun merge_loop ::
  "doclen_entries \<Rightarrow> doclen_entries \<Rightarrow> doclen_entries \<Rightarrow> error + doclen_entries" where
  "merge_loop [] done todo = Inr (done @ todo)"
| "merge_loop ((d, v) # chg) done todo =
     (case merge_advance d done todo of
        Inl e \<Rightarrow> Inl e
      | Inr (done', todo') \<Rightarrow>
          (case todo' of
             [] \<Rightarrow> Inr (merge_rest ((d, v) # chg) done')
           | (k, v') # rest \<Rightarrow>
               if k = d then
                 (if v \<noteq> SEPERATOR then merge_loop chg done' ((k, v) # rest)
                  else merge_loop chg done' rest)
               else if v \<noteq> SEPERATOR then merge_loop chg (map_insert (d, v) done') todo'
               else merge_loop chg done' todo'))"

text \<open>The changes of an empty chunk: every change but the tombstones is inserted.\<close>

fun insert_changes :: "doclen_entries \<Rightarrow> doclen_entries \<Rightarrow> doclen_entries" where
  "insert_changes [] new_doclen = new_doclen"
| "insert_changes ((d, v) # chg) new_doclen =
     (if v \<noteq> SEPERATOR then insert_changes chg (map_insert (d, v) new_doclen)
      else insert_changes chg new_doclen)"

record DoclenChunkWriter =
  chunk_from :: "byte list"
  changes :: doclen_entries
  dcw_is_first_chunk :: bool
  dcw_first_did_in_chunk :: docid
  dcw_is_last_chunk :: bool
  new_doclen :: doclen_entries

text \<open>\<open>DoclenChunkWriter::get_new_doclen\<close>.\<close>

definition get_new_doclen :: "DoclenChunkWriter \<Rightarrow> error + (bool \<times> DoclenChunkWriter)" where
  "get_new_doclen w =
     (case (if dcw_is_first_chunk w
            then (case read_start_of_first_chunk (chunk_from w) of
                    Inl e \<Rightarrow> Inl e
                  | Inr (n, c, did, p) \<Rightarrow> Inr p)
            else Inr (chunk_from w)) of
        Inl e \<Rightarrow> Inl e
      | Inr p \<Rightarrow>
     (case read_start_of_chunk p 0 of
        Inl e \<Rightarrow> Inl e
      | Inr (is_last, last_did, p1) \<Rightarrow>
          (let w1 = w\<lparr>dcw_is_last_chunk := is_last\<rparr> in
           if p1 = [] then
             (let w2 = w1\<lparr>new_doclen := insert_changes (changes w1) (new_doclen w1)\<rparr>
              in if new_doclen w2 = [] then Inr (False, w2) else Inr (True, w2))
           else
             (case decode_loop p1 (dcw_first_did_in_chunk w1) (new_doclen w1) of
                Inl e \<Rightarrow> Inl e
              | Inr old \<Rightarrow>
                  (case merge_loop (changes w1) [] old of
                     Inl e \<Rightarrow> Inl e
                   | Inr merged \<Rightarrow> Inr (True, w1\<lparr>new_doclen := merged\<rparr>))))))"


section \<open>Keys\<close>

text \<open>
  Modelled from the spec: the sort-preserving codec of \<open>pack.h\<close> and
  \<open>BrassPostListTable::make_key\<close> are not among the sources. A term is written with
  every zero byte followed by \<open>0xff\<close>; when something follows it in the key it is closed
  by a zero byte. A docid is written as a length byte and its bytes, high byte first.
  The key of the first chunk of a term is the term alone, the key of a later chunk is
  the closed term followed by the first docid of the chunk. The keys of the doclen list
  (the empty term) start with the two bytes \<open>00 e0\<close>.
\<close>

fun escape_zero :: "byte list \<Rightarrow> byte list" where
  "escape_zero [] = []"
| "escape_zero (c # cs) = (if c = 0 then 0 # 0xff # escape_zero cs else c # escape_zero cs)"

definition pack_string_preserving_sort :: "byte list \<Rightarrow> bool \<Rightarrow> byte list" where
  "pack_string_preserving_sort v is_last = escape_zero v @ (if is_last then [] else [0])"

fun unpack_string_preserving_sort :: "byte list \<Rightarrow> byte list \<times> byte list" where
  "unpack_string_preserving_sort [] = ([], [])"
| "unpack_string_preserving_sort (ch # ptr) =
     (if ch = 0 then
        (case ptr of
           [] \<Rightarrow> ([], [])
         | c2 # ptr2 \<Rightarrow>
             if c2 \<noteq> 0xff then ([], c2 # ptr2)
             else (case unpack_string_preserving_sort ptr2 of (res, rest) \<Rightarrow> (0 # res, rest)))
      else (case unpack_string_preserving_sort ptr of (res, rest) \<Rightarrow> (ch # res, rest)))"

fun be_bytes :: "nat \<Rightarrow> byte list" where
  "be_bytes n = (if n < 256 then [of_nat n] else be_bytes (n div 256) @ [of_nat (n mod 256)])"

declare be_bytes.simps [simp del]

fun be_value :: "nat \<Rightarrow> byte list \<Rightarrow> nat" where
  "be_value acc [] = acc"
| "be_value acc (b # bs) = be_value (acc * 256 + unat b) bs"

definition pack_uint_preserving_sort :: "32 word \<Rightarrow> byte list" where
  "pack_uint_preserving_sort v = of_nat (length (be_bytes (unat v))) # be_bytes (unat v)"

definition unpack_uint_preserving_sort :: "byte list \<Rightarrow> error + (32 word \<times> byte list)" where
  "unpack_uint_preserving_sort p =
     (case p of
        [] \<Rightarrow> Inl DatabaseCorruptError
      | len_byte # ptr \<Rightarrow>
          if unat len_byte > 4 then Inl RangeError
          else if length ptr < unat len_byte then Inl DatabaseCorruptError
          else Inr (of_nat (be_value 0 (take (unat len_byte) ptr)), drop (unat len_byte) ptr))"

definition make_key :: "byte list \<Rightarrow> byte list" where
  "make_key tn = (if tn = [] then [0, 0xe0] else pack_string_preserving_sort tn True)"

definition make_key_did :: "byte list \<Rightarrow> docid \<Rightarrow> byte list" where
  "make_key_did tn did =
     (if tn = [] then [0, 0xe0] else pack_string_preserving_sort tn False)
       @ pack_uint_preserving_sort did"

text \<open>
  \<open>get_tname_from_key\<close>, \<open>check_tname_in_key_lite\<close> and \<open>check_tname_in_key\<close>: they
  return the answer and the position in the key after the term.
\<close>

definition get_tname_from_key :: "byte list \<Rightarrow> error + (byte list \<times> byte list)" where
  "get_tname_from_key key = Inr (unpack_string_preserving_sort key)"

definition check_tname_in_key_lite :: "byte list \<Rightarrow> byte list \<Rightarrow> error + (bool \<times> byte list)" where
  "check_tname_in_key_lite key tn =
     (if length key \<ge> 2 \<and> key ! 0 = 0 \<and> key ! 1 = 0xe0 then Inr ([] = tn, drop 2 key)
      else
        (case get_tname_from_key key of
           Inl e \<Rightarrow> Inl e
         | Inr (tname_in_key, keypos) \<Rightarrow> Inr (tname_in_key = tn, keypos)))"

definition check_tname_in_key :: "byte list \<Rightarrow> byte list \<Rightarrow> error + (bool \<times> byte list)" where
  "check_tname_in_key key tn =
     (if key = [] then Inr (False, key) else check_tname_in_key_lite key tn)"

section \<open>The table and its cursor\<close>

text \<open>
  Modelled from the spec: \<open>BrassTable\<close> and \<open>BrassCursor\<close> are not among the sources.
  The table is an ordered map from keys to tags, here the list of its entries in key
  order (bytes compared as unsigned, a prefix before its extensions). \<open>add\<close> inserts or
  overwrites; \<open>del\<close> removes. A cursor holds the key it stands on: \<open>find_entry\<close> moves it
  to the largest key not above the one asked for and tells whether it is that key;
  with no such key the cursor stands before the first entry, on the empty key.
\<close>

type_synonym table = "(byte list \<times> byte list) list"

fun table_add :: "byte list \<Rightarrow> byte list \<Rightarrow> table \<Rightarrow> table" where
  "table_add k v [] = [(k, v)]"
| "table_add k v ((k', v') # t) =
     (if k < k' then (k, v) # (k', v') # t
      else if k = k' then (k, v) # t
      else (k', v') # table_add k v t)"

definition table_del :: "byte list \<Rightarrow> table \<Rightarrow> table" where
  "table_del k t = filter (\<lambda>e. fst e \<noteq> k) t"

definition get_exact_entry :: "byte list \<Rightarrow> table \<Rightarrow> byte list option" where
  "get_exact_entry k t = map_of t k"

definition key_exists :: "byte list \<Rightarrow> table \<Rightarrow> bool" where
  "key_exists k t = (map_of t k \<noteq> None)"

record BrassCursor =
  current_key :: "byte list"
  current_tag :: "byte list"
  is_after_end :: bool

definition cursor_get :: BrassCursor where
  "cursor_get = \<lparr>current_key = [], current_tag = [], is_after_end = False\<rparr>"

definition find_entry :: "byte list \<Rightarrow> table \<Rightarrow> BrassCursor \<Rightarrow> bool \<times> BrassCursor" where
  "find_entry key t c =
     (case filter (\<lambda>e. fst e \<le> key) t of
        [] \<Rightarrow> (False, c\<lparr>current_key := [], is_after_end := False\<rparr>)
      | e # es \<Rightarrow>
          (fst (last (e # es)) = key,
           c\<lparr>current_key := fst (last (e # es)), is_after_end := False\<rparr>))"

definition cursor_next :: "table \<Rightarrow> BrassCursor \<Rightarrow> BrassCursor" where
  "cursor_next t c =
     (case filter (\<lambda>e. fst e > current_key c) t of
        [] \<Rightarrow> c\<lparr>is_after_end := True\<rparr>
      | e # es \<Rightarrow> c\<lparr>current_key := fst e\<rparr>)"

definition read_tag :: "table \<Rightarrow> BrassCursor \<Rightarrow> BrassCursor" where
  "read_tag t c =
     c\<lparr>current_tag := (case map_of t (current_key c) of None \<Rightarrow> [] | Some v \<Rightarrow> v)\<rparr>"

text \<open>
  \<open>MutableBrassCursor::del\<close>: deletes the entry under the cursor and moves to the next
  one; false when there is none.
\<close>

definition cursor_del :: "table \<Rightarrow> BrassCursor \<Rightarrow> bool \<times> table \<times> BrassCursor" where
  "cursor_del t c =
     (let t' = table_del (current_key c) t; c' = cursor_next t' c
      in (\<not> is_after_end c', t', c'))"

section \<open>PostlistChunkReader and PostlistChunkWriter\<close>

definition CHUNKSIZE :: nat where
  "CHUNKSIZE = 2000"

record PostlistChunkReader =
  pcr_pos :: "byte list"
  pcr_at_end :: bool
  pcr_did :: docid
  pcr_wdf :: termcount

definition read_wdf :: "byte list \<Rightarrow> error + (termcount \<times> byte list)" where
  "read_wdf p = unpack_uint p"

definition read_did_increase :: "byte list \<Rightarrow> docid \<Rightarrow> error + (docid \<times> byte list)" where
  "read_did_increase p did =
     (case unpack_uint p of
        Inl e \<Rightarrow> Inl e
      | Inr (did_increase, p') \<Rightarrow> Inr (did + (did_increase + 1), p'))"

definition new_PostlistChunkReader :: "docid \<Rightarrow> byte list \<Rightarrow> error + PostlistChunkReader" where
  "new_PostlistChunkReader first_did data =
     (if data = [] then Inr \<lparr>pcr_pos = data, pcr_at_end = True, pcr_did = first_did, pcr_wdf = 0\<rparr>
      else
        (case read_wdf data of
           Inl e \<Rightarrow> Inl e
         | Inr (wdf, p) \<Rightarrow>
             Inr \<lparr>pcr_pos = p, pcr_at_end = False, pcr_did = first_did, pcr_wdf = wdf\<rparr>))"

definition pcr_next :: "PostlistChunkReader \<Rightarrow> error + PostlistChunkReader" where
  "pcr_next r =
     (if pcr_pos r = [] then Inr (r\<lparr>pcr_at_end := True\<rparr>)
      else
        (case read_did_increase (pcr_pos r) (pcr_did r) of
           Inl e \<Rightarrow> Inl e
         | Inr (did, p1) \<Rightarrow>
             (case read_wdf p1 of
                Inl e \<Rightarrow> Inl e
              | Inr (wdf, p2) \<Rightarrow> Inr (r\<lparr>pcr_pos := p2, pcr_did := did, pcr_wdf := wdf\<rparr>))))"

record PostlistChunkWriter =
  orig_key :: "byte list"
  tname :: "byte list"
  is_first_chunk :: bool
  is_last_chunk :: bool
  started :: bool
  first_did :: docid
  current_did :: docid
  chunk :: "byte list"

definition new_PostlistChunkWriter ::
  "byte list \<Rightarrow> bool \<Rightarrow> byte list \<Rightarrow> bool \<Rightarrow> PostlistChunkWriter" where
  "new_PostlistChunkWriter orig_key' is_first_chunk' tname' is_last_chunk' =
     \<lparr>orig_key = orig_key', tname = tname', is_first_chunk = is_first_chunk',
      is_last_chunk = is_last_chunk', started = False, first_did = 0, current_did = 0,
      chunk = []\<rparr>"

definition raw_append :: "docid \<Rightarrow> docid \<Rightarrow> byte list \<Rightarrow> PostlistChunkWriter \<Rightarrow> PostlistChunkWriter" where
  "raw_append first_did' current_did' s w =
     (let w1 = w\<lparr>first_did := first_did', current_did := current_did'\<rparr>
      in if s \<noteq> [] then w1\<lparr>chunk := chunk w1 @ s, started := True\<rparr> else w1)"


text \<open>
  \<open>PostlistChunkWriter::flush\<close>, branch by branch. An empty first chunk that is not
  the last one: the next chunk is rewritten as the first chunk.
\<close>

definition flush_first_deleted :: "PostlistChunkWriter \<Rightarrow> table \<Rightarrow> error + table" where
  "flush_first_deleted w t =
     (case find_entry (orig_key w) t cursor_get of
        (found, c0) \<Rightarrow>
          if \<not> found then Inl DatabaseCorruptError
          else
            (case read_start_of_first_chunk (current_tag (read_tag t c0)) of
               Inl e \<Rightarrow> Inl e
             | Inr (num_ent, coll_freq, did0, tagpos0) \<Rightarrow>
                 (let c2 = cursor_next t (read_tag t c0) in
                  if is_after_end c2 then Inl DatabaseCorruptError
                  else
                    (case check_tname_in_key (current_key c2) (tname w) of
                       Inl e \<Rightarrow> Inl e
                     | Inr (same, kpos) \<Rightarrow>
                         if \<not> same then Inl DatabaseCorruptError
                         else
                           (case unpack_uint_preserving_sort kpos of
                              Inl e \<Rightarrow> Inl e
                            | Inr (new_first_did, kpos') \<Rightarrow>
                                (case read_start_of_chunk (current_tag (read_tag t c2))
                                        new_first_did of
                                   Inl e \<Rightarrow> Inl e
                                 | Inr (new_is_last_chunk, new_last_did_in_chunk, chunk_data) \<Rightarrow>
                                     Inr (table_add (orig_key w)
                                            (make_start_of_first_chunk num_ent coll_freq new_first_did
                                               @ make_start_of_chunk new_is_last_chunk new_first_did
                                                   new_last_did_in_chunk
                                               @ chunk_data)
                                            (table_del (current_key c2) t))))))))"

text \<open>
  An empty chunk that is not the first one is deleted; when it was the last chunk, the
  chunk before it gets the flag \<open>is_last_chunk\<close>.
\<close>

definition flush_secondary_deleted :: "PostlistChunkWriter \<Rightarrow> table \<Rightarrow> error + table" where
  "flush_secondary_deleted w t =
     (let t1 = table_del (orig_key w) t in
      if \<not> is_last_chunk w then Inr t1
      else
        (case find_entry (orig_key w) t1 cursor_get of
           (found, c0) \<Rightarrow>
             if found then Inl DatabaseCorruptError
             else
               (case check_tname_in_key (current_key c0) (tname w) of
                  Inl e \<Rightarrow> Inl e
                | Inr (same, keypos) \<Rightarrow>
                    if \<not> same then Inl DatabaseCorruptError
                    else
                      (let is_prev_first_chunk = (keypos = []);
                           tag = current_tag (read_tag t1 c0)
                       in case (if is_prev_first_chunk
                                then (case read_start_of_first_chunk tag of
                                        Inl e \<Rightarrow> Inl e
                                      | Inr (n, c, did, tagpos) \<Rightarrow> Inr (did, tagpos))
                                else (case unpack_uint_preserving_sort keypos of
                                        Inl e \<Rightarrow> Inl e
                                      | Inr (did, keypos') \<Rightarrow> Inr (did, tag))) of
                            Inl e \<Rightarrow> Inl e
                          | Inr (first_did_in_chunk', tagpos) \<Rightarrow>
                              (case read_start_of_chunk tagpos first_did_in_chunk' of
                                 Inl e \<Rightarrow> Inl e
                               | Inr (wrong_is_last_chunk, last_did_in_chunk', tagpos') \<Rightarrow>
                                   Inr (table_add (current_key c0)
                                          (take (length tag - length tagpos) tag
                                             @ make_start_of_chunk True first_did_in_chunk'
                                                 last_did_in_chunk'
                                             @ tagpos')
                                          t1))))))"

text \<open>A chunk that still has entries: the first chunk, then a later chunk.\<close>

definition flush_first_kept :: "PostlistChunkWriter \<Rightarrow> table \<Rightarrow> error + table" where
  "flush_first_kept w t =
     (let key = make_key (tname w);
          tag = (case get_exact_entry key t of None \<Rightarrow> [] | Some v \<Rightarrow> v)
      in case read_start_of_first_chunk tag of
           Inl e \<Rightarrow> Inl e
         | Inr (num_ent, coll_freq, did0, tagpos) \<Rightarrow>
             Inr (table_add key
                    (make_start_of_first_chunk num_ent coll_freq (first_did w)
                       @ make_start_of_chunk (is_last_chunk w) (first_did w) (current_did w)
                       @ chunk w)
                    t))"

definition flush_secondary_kept :: "PostlistChunkWriter \<Rightarrow> table \<Rightarrow> error + table" where
  "flush_secondary_kept w t =
     (case check_tname_in_key (orig_key w) (tname w) of
        Inl e \<Rightarrow> Inl e
      | Inr (same, keypos) \<Rightarrow>
          if \<not> same then Inl DatabaseCorruptError
          else
            (case unpack_uint_preserving_sort keypos of
               Inl e \<Rightarrow> Inl e
             | Inr (initial_did, keypos') \<Rightarrow>
                 (let tag = make_start_of_chunk (is_last_chunk w) (first_did w) (current_did w)
                            @ chunk w
                  in if initial_did \<noteq> first_did w
                     then Inr (table_add (make_key_did (tname w) (first_did w)) tag
                                 (table_del (orig_key w) t))
                     else Inr (table_add (orig_key w) tag t))))"

definition flush :: "PostlistChunkWriter \<Rightarrow> table \<Rightarrow> error + table" where
  "flush w t =
     (if \<not> started w then
        (if is_first_chunk w then
           (if is_last_chunk w then Inr (table_del (orig_key w) t)
            else flush_first_deleted w t)
         else flush_secondary_deleted w t)
      else
        (if is_first_chunk w then flush_first_kept w t
         else flush_secondary_kept w t))"

text \<open>\<open>PostlistChunkWriter::append\<close>.\<close>

definition append ::
  "PostlistChunkWriter \<Rightarrow> table \<Rightarrow> docid \<Rightarrow> termcount \<Rightarrow> error + (PostlistChunkWriter \<times> table)" where
  "append w t did wdf =
     (case (if \<not> started w then Inr (w\<lparr>started := True, first_did := did\<rparr>, t)
            else if length (chunk w) \<ge> CHUNKSIZE then
              (case flush (w\<lparr>is_last_chunk := False\<rparr>) t of
                 Inl e \<Rightarrow> Inl e
               | Inr t' \<Rightarrow>
                   Inr (w\<lparr>is_first_chunk := False, first_did := did, chunk := [],
                          orig_key := make_key_did (tname w) did\<rparr>, t'))
            else Inr (w\<lparr>chunk := chunk w @ pack_uint (did - current_did w - 1)\<rparr>, t)) of
        Inl e \<Rightarrow> Inl e
      | Inr (w1, t1) \<Rightarrow> Inr (w1\<lparr>current_did := did, chunk := chunk w1 @ pack_uint wdf\<rparr>, t1))"

section \<open>BrassPostListTable\<close>

text \<open>
  \<open>BrassPostListTable::get_chunk\<close>: the last docid to allow in the chunk, and the
  out-parameters \<open>from\<close> and \<open>to\<close> (\<open>None\<close> for a null pointer). It reads the table and
  does not change it.
\<close>

definition get_chunk ::
  "byte list \<Rightarrow> docid \<Rightarrow> bool \<Rightarrow> table
   \<Rightarrow> error + (docid \<times> PostlistChunkReader option \<times> PostlistChunkWriter option)" where
  "get_chunk tn did adding t =
     (if tn = [] then Inr (- 1, None, None)
      else
        (case find_entry (make_key_did tn did) t cursor_get of
           (found, c0) \<Rightarrow>
        (case check_tname_in_key (current_key c0) tn of
           Inl e \<Rightarrow> Inl e
         | Inr (same, keypos) \<Rightarrow>
             if \<not> same then
               (if \<not> adding then Inl DatabaseCorruptError
                else Inr (- 1, None, Some (new_PostlistChunkWriter [] True tn True)))
             else
               (let is_first = (keypos = []);
                    tag = current_tag (read_tag t c0)
                in case (if is_first
                         then (case read_start_of_first_chunk tag of
                                 Inl e \<Rightarrow> Inl e
                               | Inr (n, c, d, p) \<Rightarrow> Inr (d, p))
                         else (case unpack_uint_preserving_sort keypos of
                                 Inl e \<Rightarrow> Inl e
                               | Inr (d, keypos') \<Rightarrow> Inr (d, tag))) of
                     Inl e \<Rightarrow> Inl e
                   | Inr (first_did_in_chunk', p) \<Rightarrow>
                (case read_start_of_chunk p first_did_in_chunk' of
                   Inl e \<Rightarrow> Inl e
                 | Inr (is_last, last_did_in_chunk', p') \<Rightarrow>
                     (let to0 = new_PostlistChunkWriter (current_key c0) is_first tn is_last
                      in case (if did > last_did_in_chunk'
                               then Inr (None, raw_append first_did_in_chunk' last_did_in_chunk' p' to0)
                               else (case new_PostlistChunkReader first_did_in_chunk' p' of
                                       Inl e \<Rightarrow> Inl e
                                     | Inr from \<Rightarrow> Inr (Some from, to0))) of
                           Inl e \<Rightarrow> Inl e
                         | Inr (from, to) \<Rightarrow>
                             if is_last then Inr (- 1, from, Some to)
                             else
                               (let c1 = cursor_next t (read_tag t c0) in
                                if is_after_end c1 then Inl DatabaseCorruptError
                                else
                                  (case check_tname_in_key (current_key c1) tn of
                                     Inl e \<Rightarrow> Inl e
                                   | Inr (same', kpos) \<Rightarrow>
                                       if \<not> same' then Inl DatabaseCorruptError
                                       else
                                         (case unpack_uint_preserving_sort kpos of
                                            Inl e \<Rightarrow> Inl e
                                          | Inr (first_did_of_next_chunk, kpos') \<Rightarrow>
                                              Inr (first_did_of_next_chunk - 1, from, Some to))))))))))"

text \<open>
  \<open>Inverter::PostingChanges\<close>: the deltas of the term and collection frequencies (added
  to unsigned counters, so modulo \<open>2^32\<close>) and the changes by docid, in docid order;
  the wdf \<open>-1\<close> marks a deletion.
\<close>

record PostingChanges =
  tfdelta :: "32 word"
  cfdelta :: "32 word"
  pl_changes :: doclen_entries

text \<open>
  The loop of \<open>merge_changes\<close> that zaps a posting list: \<open>while (cursor.del())\<close> goes on
  as long as the next key is of the same term.
\<close>

lemma cursor_del_measure:
  assumes "cursor_del t c = (True, t', c')"
  shows "length (filter (\<lambda>e. fst e > current_key c') t')
       < length (filter (\<lambda>e. fst e > current_key c) t)"
proof -
  let ?L = "filter (\<lambda>e. fst e > current_key c) t'"
  have t': "t' = table_del (current_key c) t" and c': "c' = cursor_next t' c"
    using assms by (auto simp: cursor_del_def Let_def)
  have same: "?L = filter (\<lambda>e. fst e > current_key c) t"
    unfolding t' table_del_def by (induction t) auto
  have "\<not> is_after_end c'"
    using assms by (auto simp: cursor_del_def Let_def)
  then obtain e es where L: "?L = e # es" and key: "current_key c' = fst e"
    unfolding c' cursor_next_def by (cases ?L) auto
  have "filter (\<lambda>x. fst x > fst e) t' = filter (\<lambda>x. fst x > fst e) ?L"
  proof -
    have "current_key c < fst e"
    proof -
      have "e \<in> set ?L"
        using L by simp
      then show ?thesis
        by simp
    qed
    then show ?thesis
      by (induction t') auto
  qed
  moreover have "length (filter (\<lambda>x. fst x > fst e) ?L) < length ?L"
    by (rule length_filter_less [of e]) (simp_all add: L)
  ultimately show ?thesis
    using same key by simp
qed

function zap_loop :: "byte list \<Rightarrow> table \<Rightarrow> BrassCursor \<Rightarrow> error + table" where
  "zap_loop tn t c =
     (case cursor_del t c of
        (moved, t', c') \<Rightarrow>
          if \<not> moved then Inr t'
          else
            (case check_tname_in_key_lite (current_key c') tn of
               Inl e \<Rightarrow> Inl e
             | Inr (same, kpos) \<Rightarrow> if \<not> same then Inr t' else zap_loop tn t' c'))"
  by pat_completeness auto
termination
  apply (relation "measure (\<lambda>(tn, t, c). length (filter (\<lambda>e. fst e > current_key c) t))")
   apply simp
  apply (auto dest: cursor_del_measure sym)
  done

declare zap_loop.simps [simp del]

text \<open>
  The loop of \<open>merge_changes\<close> that copies the entries below \<open>did\<close> from the reader to the
  writer, and drops the entry at \<open>did\<close>.
\<close>

lemma pcr_next_measure:
  assumes "pcr_next r = Inr r'" and "\<not> pcr_at_end r"
  shows "length (pcr_pos r') + (if pcr_at_end r' then 0 else 1)
       < length (pcr_pos r) + (if pcr_at_end r then 0 else 1)"
proof (cases "pcr_pos r = []")
  case True
  then show ?thesis
    using assms by (auto simp: pcr_next_def)
next
  case False
  then obtain did p1 wdf p2 where "read_did_increase (pcr_pos r) (pcr_did r) = Inr (did, p1)"
    and "read_wdf p1 = Inr (wdf, p2)" and r': "r' = r\<lparr>pcr_pos := p2, pcr_did := did, pcr_wdf := wdf\<rparr>"
    using assms by (auto simp: pcr_next_def split: sum.splits)
  then have "length p1 < length (pcr_pos r)" and "length p2 < length p1"
    by (auto simp: read_did_increase_def read_wdf_def split: sum.splits dest: unpack_uint_shorter)
  then show ?thesis
    using assms r' by simp
qed

function copy_until ::
  "docid \<Rightarrow> PostlistChunkReader \<Rightarrow> PostlistChunkWriter \<Rightarrow> table
   \<Rightarrow> error + (PostlistChunkReader \<times> PostlistChunkWriter \<times> table)" where
  "copy_until did from to t =
     (if pcr_at_end from then Inr (from, to, t)
      else if pcr_did from \<ge> did then
        (if pcr_did from = did
         then (case pcr_next from of Inl e \<Rightarrow> Inl e | Inr from' \<Rightarrow> Inr (from', to, t))
         else Inr (from, to, t))
      else
        (case append to t (pcr_did from) (pcr_wdf from) of
           Inl e \<Rightarrow> Inl e
         | Inr (to', t') \<Rightarrow>
             (case pcr_next from of
                Inl e \<Rightarrow> Inl e
              | Inr from' \<Rightarrow> copy_until did from' to' t')))"
  by pat_completeness auto
termination
proof (relation "measure (\<lambda>(did, from, to, t).
    length (pcr_pos from) + (if pcr_at_end from then 0 else 1))")
  show "wf (measure (\<lambda>(did :: docid, from :: PostlistChunkReader, to :: PostlistChunkWriter,
      t :: table). length (pcr_pos from) + (if pcr_at_end from then 0 else 1)))"
    by simp
next
  fix did :: docid and "from" from' :: PostlistChunkReader and to to' :: PostlistChunkWriter
    and t t' :: table and x2
  assume "\<not> pcr_at_end from" and "pcr_next from = Inr from'"
  then show "((did, from', to', t'), (did, from, to, t)) \<in> measure (\<lambda>(did, from, to, t).
      length (pcr_pos from) + (if pcr_at_end from then 0 else 1))"
    using pcr_next_measure [of "from" from'] by simp
qed

declare copy_until.simps [simp del]

text \<open>The last loop of \<open>merge_changes\<close>: the entries left in the reader are appended.\<close>

function copy_rest ::
  "PostlistChunkReader \<Rightarrow> PostlistChunkWriter \<Rightarrow> table \<Rightarrow> error + (PostlistChunkWriter \<times> table)" where
  "copy_rest from to t =
     (if pcr_at_end from then Inr (to, t)
      else
        (case append to t (pcr_did from) (pcr_wdf from) of
           Inl e \<Rightarrow> Inl e
         | Inr (to', t') \<Rightarrow>
             (case pcr_next from of
                Inl e \<Rightarrow> Inl e
              | Inr from' \<Rightarrow> copy_rest from' to' t')))"
  by pat_completeness auto
termination
proof (relation "measure (\<lambda>(from, to, t).
    length (pcr_pos from) + (if pcr_at_end from then 0 else 1))")
  show "wf (measure (\<lambda>(from :: PostlistChunkReader, to :: PostlistChunkWriter, t :: table).
      length (pcr_pos from) + (if pcr_at_end from then 0 else 1)))"
    by simp
next
  fix "from" from' :: PostlistChunkReader and to to' :: PostlistChunkWriter
    and t t' :: table and x2
  assume "\<not> pcr_at_end from" and "pcr_next from = Inr from'"
  then show "((from', to', t'), (from, to, t)) \<in> measure (\<lambda>(from, to, t).
      length (pcr_pos from) + (if pcr_at_end from then 0 else 1))"
    using pcr_next_measure [of "from" from'] by simp
qed

declare copy_rest.simps [simp del]

text \<open>
  The main loop of \<open>merge_changes\<close> over the changes from \<open>j\<close> on. The jump back to
  \<open>next_chunk\<close> keeps the change; the number of turns is bounded by the fuel, and
  \<open>None\<close> is a loop that has not ended within it. A null \<open>to\<close> is dereferenced where
  the source appends or flushes.
\<close>

fun merge_changes_loop ::
  "nat \<Rightarrow> byte list \<Rightarrow> doclen_entries \<Rightarrow> docid \<Rightarrow> PostlistChunkReader option
   \<Rightarrow> PostlistChunkWriter option \<Rightarrow> table \<Rightarrow> (error + table) option" where
  "merge_changes_loop 0 tn js max_did from to t = None"
| "merge_changes_loop (Suc fuel) tn [] max_did from to t =
     (case to of
        None \<Rightarrow> Some (Inl UndefinedBehaviour)
      | Some w \<Rightarrow>
          (case from of
             None \<Rightarrow> Some (flush w t)
           | Some f \<Rightarrow>
               (case copy_rest f w t of
                  Inl e \<Rightarrow> Some (Inl e)
                | Inr (w', t') \<Rightarrow> Some (flush w' t'))))"
| "merge_changes_loop (Suc fuel) tn ((did, new_wdf) # js) max_did from to t =
     (case (case from of
              None \<Rightarrow> Inr (None, to, t)
            | Some f \<Rightarrow>
                (case to of
                   None \<Rightarrow> Inl UndefinedBehaviour
                 | Some w \<Rightarrow>
                     (case copy_until did f w t of
                        Inl e \<Rightarrow> Inl e
                      | Inr (f', w', t') \<Rightarrow> Inr (Some f', Some w', t')))) of
        Inl e \<Rightarrow> Some (Inl e)
      | Inr (from', to', t') \<Rightarrow>
          if (case from' of None \<Rightarrow> True | Some f' \<Rightarrow> pcr_at_end f') \<and> did > max_did then
            (case to' of
               None \<Rightarrow> Some (Inl UndefinedBehaviour)
             | Some w' \<Rightarrow>
                 (case flush w' t' of
                    Inl e \<Rightarrow> Some (Inl e)
                  | Inr t'' \<Rightarrow>
                      (case get_chunk tn did False t'' of
                         Inl e \<Rightarrow> Some (Inl e)
                       | Inr (max_did', from'', to'') \<Rightarrow>
                           merge_changes_loop fuel tn ((did, new_wdf) # js) max_did' from'' to''
                             t'')))
          else if new_wdf \<noteq> - 1 then
            (case to' of
               None \<Rightarrow> Some (Inl UndefinedBehaviour)
             | Some w' \<Rightarrow>
                 (case append w' t' did new_wdf of
                    Inl e \<Rightarrow> Some (Inl e)
                  | Inr (w'', t'') \<Rightarrow>
                      merge_changes_loop fuel tn js max_did from' (Some w'') t''))
          else merge_changes_loop fuel tn js max_did from' to' t')"

text \<open>
  \<open>BrassPostListTable::merge_changes\<close>. An absent first chunk reads as an empty tag.
  With no change at all, \<open>j->first\<close> is read at the end iterator.
\<close>

definition merge_changes ::
  "nat \<Rightarrow> byte list \<Rightarrow> PostingChanges \<Rightarrow> table \<Rightarrow> (error + table) option" where
  "merge_changes fuel tn chg t =
     (let current_key' = make_key tn;
          tag = (case get_exact_entry current_key' t of None \<Rightarrow> [] | Some v \<Rightarrow> v)
      in case (if tag = [] then Inr (0, 0, 0, 0, True, [])
               else (case read_start_of_first_chunk tag of
                       Inl e \<Rightarrow> Inl e
                     | Inr (termfreq, collfreq, firstdid, p) \<Rightarrow>
                         (case read_start_of_chunk p firstdid of
                            Inl e \<Rightarrow> Inl e
                          | Inr (islast, lastdid, p') \<Rightarrow>
                              Inr (termfreq, collfreq, firstdid, lastdid, islast, p')))) of
           Inl e \<Rightarrow> Some (Inl e)
         | Inr (termfreq, collfreq, firstdid, lastdid, islast, p) \<Rightarrow>
             if termfreq + tfdelta chg = 0 then
               (if islast then Some (Inr (table_del current_key' t))
                else
                  (case find_entry current_key' t cursor_get of
                     (found, c) \<Rightarrow>
                       if \<not> found then Some (Inr t) else Some (zap_loop tn t c)))
             else
               (let newhdr = make_start_of_first_chunk (termfreq + tfdelta chg)
                               (collfreq + cfdelta chg) firstdid
                             @ make_start_of_chunk islast firstdid lastdid;
                    t1 = (if p = [] then table_add current_key' newhdr t
                          else table_add current_key' (newhdr @ p) t)
                in case pl_changes chg of
                     [] \<Rightarrow> Some (Inl UndefinedBehaviour)
                   | (did, wdf) # js \<Rightarrow>
                       (case get_chunk tn did False t1 of
                          Inl e \<Rightarrow> Some (Inl e)
                        | Inr (max_did, from, to) \<Rightarrow>
                            merge_changes_loop fuel tn (pl_changes chg) max_did from to t1)))"

section \<open>Writing doclen chunks\<close>

text \<open>
  The loop of \<open>DoclenChunkWriter::merge_doclen_changes\<close> that splits a long map into
  chunks of \<open>MAX_ENTRIES_IN_CHUNK\<close> entries (a constant of the missing header, here the
  parameter \<open>max_entries\<close>). \<open>run\<close> holds the entries from \<open>start_pos\<close> to \<open>end_pos\<close>,
  \<open>at_begin\<close> is \<open>start_pos == new_doclen.begin()\<close>.
\<close>

fun split_loop ::
  "32 word \<Rightarrow> rat \<Rightarrow> nat \<Rightarrow> DoclenChunkWriter \<Rightarrow> bool \<Rightarrow> doclen_entries \<Rightarrow> nat
   \<Rightarrow> doclen_entries \<Rightarrow> table \<Rightarrow> table" where
  "split_loop min_contig min_ratio max_entries w at_begin run count [] t = t"
| "split_loop min_contig min_ratio max_entries w at_begin run count (e # rest) t =
     (let run' = run @ [e];
          is_done = (rest = [])
      in if is_done \<or> count + 1 = max_entries then
           (let cur_chunk = snd (encode min_contig min_ratio run'
                  (make_start_of_chunk (is_done \<and> dcw_is_last_chunk w) (fst (hd run'))
                     (fst (last run'))));
                t' = (if at_begin \<and> dcw_is_first_chunk w
                      then table_add (make_key [])
                             (make_start_of_first_chunk 0 0 (fst (hd run')) @ cur_chunk) t
                      else table_add (make_key_did [] (fst (hd run'))) cur_chunk t)
            in if is_done then t'
               else split_loop min_contig min_ratio max_entries w False [] 0 rest t')
         else split_loop min_contig min_ratio max_entries w at_begin run' (count + 1) rest t)"

text \<open>\<open>DoclenChunkWriter::merge_doclen_changes\<close>.\<close>

definition dcw_merge_doclen_changes ::
  "32 word \<Rightarrow> rat \<Rightarrow> nat \<Rightarrow> DoclenChunkWriter \<Rightarrow> table \<Rightarrow> error + table" where
  "dcw_merge_doclen_changes min_contig min_ratio max_entries w t =
     (case get_new_doclen w of
        Inl e \<Rightarrow> Inl e
      | Inr (b, w1) \<Rightarrow>
          (case new_doclen w1 of
             [] \<Rightarrow> Inr t
           | e # es \<Rightarrow>
               if length (new_doclen w1) \<le> max_entries then
                 (let cur_chunk = snd (encode min_contig min_ratio (new_doclen w1)
                        (make_start_of_chunk (dcw_is_last_chunk w1) (fst e)
                           (fst (last (new_doclen w1)))))
                  in if dcw_is_first_chunk w1
                     then Inr (table_add (make_key [])
                                 (make_start_of_first_chunk 0 0 (fst e) @ cur_chunk) t)
                     else Inr (table_add (make_key_did [] (fst e)) cur_chunk t))
               else Inr (split_loop min_contig min_ratio max_entries w1 True [] 0
                           (new_doclen w1) t)))"

text \<open>
  The loop of \<open>BrassPostListTable::merge_doclen_changes\<close> over the doclen chunks; \<open>its\<close>
  are the changes from \<open>it\<close> on (\<open>pre_it\<close> and \<open>it\<close> are equal at the start of every
  turn). The build is one without \<open>XAPIAN_ASSERTIONS\<close>, where \<open>Assert\<close> expands to
  nothing: the expression of \<open>Assert(check_tname_in_key(&kpos, kend, string()))\<close> is not
  evaluated, \<open>kpos\<close> stays at the start of the key, and the next line reads the docid
  there. The reads whose results are not checked leave \<open>first_did_in_next_chunk\<close> at 0
  when they fail. The number of turns is bounded by the fuel.
\<close>

fun merge_doclen_loop ::
  "nat \<Rightarrow> 32 word \<Rightarrow> rat \<Rightarrow> nat \<Rightarrow> doclen_entries \<Rightarrow> table \<Rightarrow> (error + table) option" where
  "merge_doclen_loop 0 min_contig min_ratio max_entries its t = None"
| "merge_doclen_loop (Suc fuel) min_contig min_ratio max_entries [] t = Some (Inr t)"
| "merge_doclen_loop (Suc fuel) min_contig min_ratio max_entries ((d, l) # its) t =
     (case find_entry (make_key_did [] d) t cursor_get of
        (found, c0) \<Rightarrow>
     (case check_tname_in_key (current_key c0) [] of
        Inl e \<Rightarrow> Some (Inl e)
      | Inr (same, keypos) \<Rightarrow>
          (let is_first = (keypos = []);
               ori_key = current_key c0;
               desired_chunk = current_tag (read_tag t c0)
           in case (if is_first
                    then (case read_start_of_first_chunk desired_chunk of
                            Inl e \<Rightarrow> Inl e
                          | Inr (n, c, did, p) \<Rightarrow> Inr (did, p))
                    else (case unpack_uint_preserving_sort keypos of
                            Inl e \<Rightarrow> Inl e
                          | Inr (did, keypos') \<Rightarrow> Inr (did, desired_chunk))) of
                Inl e \<Rightarrow> Some (Inl e)
              | Inr (fdid, p) \<Rightarrow>
           (case read_start_of_chunk p fdid of
              Inl e \<Rightarrow> Some (Inl e)
            | Inr (is_last, last_did, p') \<Rightarrow>
                (let first_did_in_next_chunk =
                       (if is_last then 0
                        else
                          (let kpos = current_key (cursor_next t (read_tag t c0)) in
                           case unpack_uint_preserving_sort kpos of
                             Inl e \<Rightarrow> 0
                           | Inr (did', kpos') \<Rightarrow> did'));
                     here = (if is_last then (d, l) # its
                             else takeWhile (\<lambda>e. fst e < first_did_in_next_chunk) ((d, l) # its));
                     later = (if is_last then []
                              else dropWhile (\<lambda>e. fst e < first_did_in_next_chunk) ((d, l) # its))
                 in case dcw_merge_doclen_changes min_contig min_ratio max_entries
                           \<lparr>chunk_from = desired_chunk, changes = here,
                            dcw_is_first_chunk = is_first, dcw_first_did_in_chunk = fdid,
                            dcw_is_last_chunk = False, new_doclen = []\<rparr>
                           (table_del ori_key t) of
                      Inl e \<Rightarrow> Some (Inl e)
                    | Inr t' \<Rightarrow>
                        merge_doclen_loop fuel min_contig min_ratio max_entries later t')))))"

text \<open>
  \<open>BrassPostListTable::merge_doclen_changes\<close>. The table object holds the entries and
  the cached doclen posting list \<open>doclen_pl\<close> (present or reset).
\<close>

record BrassPostListTable =
  entries :: table
  doclen_pl_cached :: bool

definition merge_doclen_changes ::
  "nat \<Rightarrow> 32 word \<Rightarrow> rat \<Rightarrow> nat \<Rightarrow> doclen_entries \<Rightarrow> BrassPostListTable
   \<Rightarrow> (error + BrassPostListTable) option" where
  "merge_doclen_changes fuel min_contig min_ratio max_entries doclens tbl =
     (let tbl1 = tbl\<lparr>doclen_pl_cached := False\<rparr> in
      if doclens = [] then Some (Inr tbl1)
      else
        (let current_key' = make_key [];
             t1 = (if \<not> key_exists current_key' (entries tbl1)
                   then table_add current_key'
                          (make_start_of_first_chunk 0 0 0 @ make_start_of_chunk True 0 0)
                          (entries tbl1)
                   else entries tbl1)
         in case merge_doclen_loop fuel min_contig min_ratio max_entries doclens t1 of
              None \<Rightarrow> None
            | Some (Inl e) \<Rightarrow> Some (Inl e)
            | Some (Inr t') \<Rightarrow> Some (Inr (tbl1\<lparr>entries := t'\<rparr>))))"

section \<open>BrassPostList\<close>

text \<open>
  \<open>DoclenChunkReader\<close> wraps a \<open>FixedWidthChunkReader\<close>: its constructor reads the
  headers of the chunk and builds the reader on the body.
\<close>

definition new_DoclenChunkReader ::
  "byte list \<Rightarrow> bool \<Rightarrow> docid \<Rightarrow> error + FixedWidthChunkReader" where
  "new_DoclenChunkReader chunk' is_first first_did_in_chunk' =
     (case (if is_first
            then (case read_start_of_first_chunk chunk' of
                    Inl e \<Rightarrow> Inl e
                  | Inr (n, c, did, p) \<Rightarrow> Inr p)
            else Inr chunk') of
        Inl e \<Rightarrow> Inl e
      | Inr p \<Rightarrow>
          (case read_start_of_chunk p 0 of
             Inl e \<Rightarrow> Inl e
           | Inr (is_last, last_did, p') \<Rightarrow> new_FixedWidthChunkReader p' first_did_in_chunk'))"

text \<open>
  The cursor over a posting list. \<open>pl_pos\<close> is the position in the tag of the current
  chunk; the table cursor reads the table it is given.
\<close>

record BrassPostList =
  pl_term :: "byte list"
  have_started :: bool
  pl_is_at_end :: bool
  pl_cursor :: BrassCursor
  p_doclen_chunk_reader :: "FixedWidthChunkReader option"
  is_doclen_list :: bool
  pl_pos :: "byte list"
  pl_did :: docid
  pl_wdf :: termcount
  pl_first_did_in_chunk :: docid
  pl_last_did_in_chunk :: docid
  pl_is_first_chunk :: bool
  pl_is_last_chunk :: bool
  number_of_entries :: doccount

text \<open>
  \<open>BrassPostList::next_chunk\<close>. An exception leaves the object behind; the model
  returns the error alone.
\<close>

definition next_chunk :: "table \<Rightarrow> BrassPostList \<Rightarrow> error + BrassPostList" where
  "next_chunk t pl =
     (if pl_is_last_chunk pl then Inr (pl\<lparr>pl_is_at_end := True\<rparr>)
      else
        (let c1 = cursor_next t (pl_cursor pl) in
         if is_after_end c1 then Inl DatabaseCorruptError
         else
           (case check_tname_in_key_lite (current_key c1) (pl_term pl) of
              Inl e \<Rightarrow> Inl e
            | Inr (same, keypos) \<Rightarrow>
                if \<not> same then Inl DatabaseCorruptError
                else
                  (case unpack_uint_preserving_sort keypos of
                     Inl e \<Rightarrow> Inl e
                   | Inr (newdid, keypos') \<Rightarrow>
                       if newdid \<le> pl_did pl then Inl DatabaseCorruptError
                       else
                         (let c2 = read_tag t c1 in
                          case read_start_of_chunk (current_tag c2) newdid of
                            Inl e \<Rightarrow> Inl e
                          | Inr (is_last, last_did, p) \<Rightarrow>
                              (let pl1 = pl\<lparr>pl_cursor := c2, pl_is_first_chunk := False,
                                            pl_did := newdid, pl_first_did_in_chunk := newdid,
                                            pl_last_did_in_chunk := last_did,
                                            pl_is_last_chunk := is_last, pl_pos := p\<rparr>
                               in if \<not> is_doclen_list pl1 then
                                    (case read_wdf p of
                                       Inl e \<Rightarrow> Inl e
                                     | Inr (wdf, p') \<Rightarrow> Inr (pl1\<lparr>pl_wdf := wdf, pl_pos := p'\<rparr>))
                                  else
                                    (case new_DoclenChunkReader (current_tag c2) False newdid of
                                       Inl e \<Rightarrow> Inl e
                                     | Inr r \<Rightarrow>
                                         Inr (pl1\<lparr>p_doclen_chunk_reader := Some r,
                                                  pl_did := get_docid r, pl_wdf := get_doclen r,
                                                  pl_is_at_end := at_end r\<rparr>))))))))"

text \<open>
  \<open>BrassPostList::init\<close>, on the object as the constructor's initialisers leave it.
  \<open>pos\<close> is a null pointer exactly when \<open>init\<close> does not find the list (nothing
  assigns null to it later); the first component of the result tells that.
\<close>

definition init :: "table \<Rightarrow> BrassPostList \<Rightarrow> error + (bool \<times> BrassPostList)" where
  "init t pl =
     (case find_entry (make_key (pl_term pl)) t (pl_cursor pl) of
        (found, c1) \<Rightarrow>
          if \<not> found then
            Inr (True, pl\<lparr>pl_cursor := c1, number_of_entries := 0, pl_is_last_chunk := True,
                          pl_is_at_end := True, pl_pos := [], pl_first_did_in_chunk := 0,
                          pl_last_did_in_chunk := 0\<rparr>)
          else
            (let c2 = read_tag t c1 in
             case read_start_of_first_chunk (current_tag c2) of
               Inl e \<Rightarrow> Inl e
             | Inr (n, collfreq, did, p) \<Rightarrow>
                 (case read_start_of_chunk p did of
                    Inl e \<Rightarrow> Inl e
                  | Inr (is_last, last_did, p') \<Rightarrow>
                      (let pl1 = pl\<lparr>pl_cursor := c2, pl_pos := p', pl_is_first_chunk := True,
                                    pl_did := did, number_of_entries := n,
                                    pl_first_did_in_chunk := did,
                                    pl_last_did_in_chunk := last_did,
                                    pl_is_last_chunk := is_last\<rparr>
                       in if \<not> is_doclen_list pl1 then
                            (case read_wdf p' of
                               Inl e \<Rightarrow> Inl e
                             | Inr (wdf, p'') \<Rightarrow>
                                 Inr (False, pl1\<lparr>pl_wdf := wdf, pl_pos := p'',
                                                  p_doclen_chunk_reader := None\<rparr>))
                          else
                            (case new_DoclenChunkReader (current_tag c2) True did of
                               Inl e \<Rightarrow> Inl e
                             | Inr r \<Rightarrow>
                                 Inr (False, pl1\<lparr>p_doclen_chunk_reader := Some r,
                                                  pl_did := get_docid r, pl_wdf := get_doclen r,
                                                  pl_is_at_end := at_end r\<rparr>))))))"

text \<open>\<open>BrassPostList::current_chunk_contains\<close>.\<close>

definition current_chunk_contains :: "docid \<Rightarrow> BrassPostList \<Rightarrow> bool" where
  "current_chunk_contains desired_did pl =
     (desired_did \<ge> pl_first_did_in_chunk pl \<and> desired_did \<le> pl_last_did_in_chunk pl)"

text \<open>
  \<open>BrassPostList::move_to_chunk_containing\<close>, in a build without \<open>XAPIAN_ASSERTIONS\<close>
  (the first chunk's number of entries is read and dropped).
\<close>

definition move_to_chunk_containing ::
  "table \<Rightarrow> docid \<Rightarrow> BrassPostList \<Rightarrow> error + BrassPostList" where
  "move_to_chunk_containing t desired_did pl =
     (let c1 = snd (find_entry (make_key_did (pl_term pl) desired_did) t (pl_cursor pl)) in
      case check_tname_in_key_lite (current_key c1) (pl_term pl) of
        Inl e \<Rightarrow> Inl e
      | Inr (same, keypos) \<Rightarrow>
          if \<not> same
          then Inr (pl\<lparr>pl_cursor := c1, pl_is_at_end := True, pl_is_last_chunk := True\<rparr>)
          else
            (let c2 = read_tag t c1;
                 pl1 = pl\<lparr>pl_cursor := c2, pl_is_at_end := False,
                          pl_is_first_chunk := (keypos = [])\<rparr>
             in case (if keypos = []
                      then (case read_start_of_first_chunk (current_tag c2) of
                              Inl e \<Rightarrow> Inl e
                            | Inr (n, collfreq, did, p) \<Rightarrow> Inr (did, p))
                      else (case unpack_uint_preserving_sort keypos of
                              Inl e \<Rightarrow> Inl e
                            | Inr (did, keypos') \<Rightarrow> Inr (did, current_tag c2))) of
                  Inl e \<Rightarrow> Inl e
                | Inr (did, p) \<Rightarrow>
                    (case read_start_of_chunk p did of
                       Inl e \<Rightarrow> Inl e
                     | Inr (is_last, last_did, p') \<Rightarrow>
                         (let pl2 = pl1\<lparr>pl_pos := p', pl_did := did,
                                        pl_first_did_in_chunk := did,
                                        pl_last_did_in_chunk := last_did,
                                        pl_is_last_chunk := is_last\<rparr>
                          in case (if \<not> is_doclen_list pl2 then
                                     (case read_wdf p' of
                                        Inl e \<Rightarrow> Inl e
                                      | Inr (wdf, p'') \<Rightarrow> Inr (pl2\<lparr>pl_wdf := wdf, pl_pos := p''\<rparr>))
                                   else
                                     (case new_DoclenChunkReader (current_tag c2)
                                             (pl_is_first_chunk pl2) did of
                                        Inl e \<Rightarrow> Inl e
                                      | Inr r \<Rightarrow>
                                          Inr (pl2\<lparr>p_doclen_chunk_reader := Some r,
                                                   pl_did := get_docid r, pl_wdf := get_doclen r,
                                                   pl_is_at_end := at_end r\<rparr>))) of
                               Inl e \<Rightarrow> Inl e
                             | Inr pl3 \<Rightarrow>
                                 if desired_did > pl_last_did_in_chunk pl3 then next_chunk t pl3
                                 else Inr pl3))))"

text \<open>
  Modelled from the spec: \<open>DoclenChunkReader::get_doclen(desired_did)\<close>, the random
  access of the reader, is in the missing header. It jumps to \<open>desired_did\<close> and returns
  the length there, or \<open>-1\<close> (which the caller takes for "no such document") when the
  jump fails.
\<close>

definition get_doclen_at ::
  "docid \<Rightarrow> FixedWidthChunkReader \<Rightarrow> error + (termcount \<times> FixedWidthChunkReader)" where
  "get_doclen_at desired_did r =
     (case jump_to desired_did r of
        Inl e \<Rightarrow> Inl e
      | Inr (found, r') \<Rightarrow> Inr (if found then get_doclen r' else - 1, r'))"

text \<open>
  \<open>BrassPostList::jump_to\<close>, used for the doclen list. \<open>pos_is_null\<close> is the test
  \<open>pos == 0\<close>. \<open>jump_to_in_chunk\<close> is the end of the function, from the comment
  "Move to correct position in chunk" on; a null \<open>p_doclen_chunk_reader\<close> is
  dereferenced there when the list is not a doclen list.
\<close>

definition jump_to_in_chunk :: "docid \<Rightarrow> BrassPostList \<Rightarrow> error + (bool \<times> BrassPostList)" where
  "jump_to_in_chunk desired_did pl =
     (case p_doclen_chunk_reader pl of
        None \<Rightarrow> Inl UndefinedBehaviour
      | Some r \<Rightarrow>
          (case get_doclen_at desired_did r of
             Inl e \<Rightarrow> Inl e
           | Inr (wdf, r') \<Rightarrow>
               (let pl1 = pl\<lparr>p_doclen_chunk_reader := Some r', pl_wdf := wdf,
                              pl_is_at_end := at_end r'\<rparr>
                in if wdf = - 1
                   then Inr (False, pl1\<lparr>pl_wdf := get_doclen r', pl_did := get_docid r'\<rparr>)
                   else Inr (True, pl1\<lparr>pl_did := get_docid r'\<rparr>))))"

definition pl_jump_to ::
  "bool \<Rightarrow> table \<Rightarrow> docid \<Rightarrow> BrassPostList \<Rightarrow> error + (bool \<times> BrassPostList)" where
  "pl_jump_to pos_is_null t desired_did pl =
     (let pl0 = pl\<lparr>have_started := True\<rparr> in
      if pos_is_null then Inr (False, pl0)
      else if pl_is_at_end pl0 \<or> \<not> current_chunk_contains desired_did pl0
                \<or> desired_did < pl_did pl0
      then
        (case move_to_chunk_containing t desired_did (pl0\<lparr>pl_is_at_end := False\<rparr>) of
           Inl e \<Rightarrow> Inl e
         | Inr pl1 \<Rightarrow>
             if pl_is_at_end pl1 then Inr (False, pl1) else jump_to_in_chunk desired_did pl1)
      else jump_to_in_chunk desired_did pl0)"

text \<open>\<open>BrassPostList::next_in_chunk\<close> and \<open>BrassPostList::next\<close>.\<close>

definition next_in_chunk :: "BrassPostList \<Rightarrow> error + (bool \<times> BrassPostList)" where
  "next_in_chunk pl =
     (if is_doclen_list pl then
        (case p_doclen_chunk_reader pl of
           None \<Rightarrow> Inl UndefinedBehaviour
         | Some r \<Rightarrow>
             (case fwcr_next r of
                Inl e \<Rightarrow> Inl e
              | Inr (moved, r') \<Rightarrow>
                  if moved
                  then Inr (True, pl\<lparr>p_doclen_chunk_reader := Some r', pl_did := get_docid r',
                                      pl_wdf := get_doclen r', pl_is_at_end := at_end r'\<rparr>)
                  else Inr (False, pl\<lparr>p_doclen_chunk_reader := Some r',
                                       pl_is_at_end := at_end r'\<rparr>)))
      else if pl_pos pl = [] then Inr (False, pl)
      else
        (case read_did_increase (pl_pos pl) (pl_did pl) of
           Inl e \<Rightarrow> Inl e
         | Inr (did, p1) \<Rightarrow>
             (case read_wdf p1 of
                Inl e \<Rightarrow> Inl e
              | Inr (wdf, p2) \<Rightarrow> Inr (True, pl\<lparr>pl_pos := p2, pl_did := did, pl_wdf := wdf\<rparr>))))"

definition pl_next :: "table \<Rightarrow> BrassPostList \<Rightarrow> error + BrassPostList" where
  "pl_next t pl =
     (if \<not> have_started pl then Inr (pl\<lparr>have_started := True\<rparr>)
      else
        (case next_in_chunk pl of
           Inl e \<Rightarrow> Inl e
         | Inr (moved, pl1) \<Rightarrow> if moved then Inr pl1 else next_chunk t pl1))"

section \<open>The blocks of a doclen chunk\<close>

text \<open>
  The body of a doclen chunk is a sequence of blocks: an entry in the normal format
  (docid increment and length), or a block in the fixed-width format (\<open>SEPERATOR\<close>,
  docid increment, number of entries in two bytes, bytes per length in one byte, and the
  lengths). \<open>block_bytes\<close> gives the bytes of a sequence of blocks after the docid
  \<open>docid_before_start_pos\<close>, \<open>block_entries\<close> the entries they stand for.
\<close>

datatype block = Normal docid termcount | Fixed "32 word" doclen_entries

fun block_bytes :: "docid \<Rightarrow> block list \<Rightarrow> byte list" where
  "block_bytes before [] = []"
| "block_bytes before (Normal d l # bs) =
     pack_uint (d - before) @ pack_uint l @ block_bytes d bs"
| "block_bytes before (Fixed max_bytes run # bs) =
     pack_uint SEPERATOR @ pack_uint (fst (hd run) - before)
       @ pack_uint_in_bytes (of_nat (length run)) 2 @ pack_uint_in_bytes max_bytes 1
       @ concat (map (\<lambda>e. pack_uint_in_bytes (snd e) (unat max_bytes)) run)
       @ block_bytes (fst (last run)) bs"

fun block_entries :: "block list \<Rightarrow> doclen_entries" where
  "block_entries [] = []"
| "block_entries (Normal d l # bs) = (d, l) # block_entries bs"
| "block_entries (Fixed max_bytes run # bs) = run @ block_entries bs"

text \<open>
  The blocks \<open>FixedWidthChunk::encode\<close> emits: the loop of \<open>encode_loop\<close>, with each
  block recorded instead of written.
\<close>

function encode_blocks :: "32 word \<Rightarrow> rat \<Rightarrow> doclen_entries \<Rightarrow> block list" where
  "encode_blocks min_contig min_ratio [] = []"
| "encode_blocks min_contig min_ratio ((d, l) # rest) =
     (let max_bytes = get_max_bytes l;
          scanned = encode_scan min_ratio max_bytes rest 1 d 0 0;
          it = fst scanned;
          length_contiguous = fst (snd scanned);
          run = take (Suc (length rest) - length it) ((d, l) # rest)
      in if length_contiguous > min_contig
         then Fixed max_bytes run # encode_blocks min_contig min_ratio it
         else map (\<lambda>e. Normal (fst e) (snd e)) run @ encode_blocks min_contig min_ratio it)"
  by pat_completeness auto
termination
proof (relation "measure (\<lambda>(mc, r, it). length it)")
  show "wf (measure (\<lambda>(mc :: 32 word, r :: rat, it :: doclen_entries). length it))"
    by simp
qed (auto simp: less_Suc_eq_le encode_scan_length)

declare encode_blocks.simps [simp del]

text \<open>Docids that go up by one from entry to entry.\<close>

fun consecutive :: "doclen_entries \<Rightarrow> bool" where
  "consecutive [] = True"
| "consecutive [e] = True"
| "consecutive (e # e' # es) = (fst e' = fst e + 1 \<and> consecutive (e' # es))"

text \<open>
  The counters of the inner loop of \<open>encode\<close> over the entries that extend a block:
  \<open>used_bytes\<close> grows by \<open>max_bytes\<close> and \<open>good_bytes\<close> by the bytes the length needs.
\<close>

definition used_bytes_of :: "32 word \<Rightarrow> doclen_entries \<Rightarrow> nat" where
  "used_bytes_of max_bytes es = length es * unat max_bytes"

definition good_bytes_of :: "doclen_entries \<Rightarrow> nat" where
  "good_bytes_of es = sum_list (map (\<lambda>e. unat (get_max_bytes (snd e))) es)"

text \<open>
  Blocks that can be read back: an increment in the normal format is not the
  \<open>SEPERATOR\<close>; a block in the fixed-width format has consecutive docids, a number of
  entries that fits two bytes, a width that fits one byte, and lengths that fit the
  width. \<open>start_ok\<close>: the docid before a list of entries is its first docid, or a
  smaller docid other than 0.
\<close>

fun blocks_ok :: "docid \<Rightarrow> block list \<Rightarrow> bool" where
  "blocks_ok before [] = True"
| "blocks_ok before (Normal d l # bs) = (d - before \<noteq> SEPERATOR \<and> blocks_ok d bs)"
| "blocks_ok before (Fixed max_bytes run # bs) =
     (run \<noteq> [] \<and> consecutive run \<and> length run < 65536 \<and> unat max_bytes < 256
      \<and> (\<forall>e\<in>set run. unat (snd e) < 256 ^ unat max_bytes)
      \<and> blocks_ok (fst (last run)) bs)"

definition start_ok :: "docid \<Rightarrow> doclen_entries \<Rightarrow> bool" where
  "start_ok before xs = (xs = [] \<or> before = fst (hd xs) \<or> (before \<noteq> 0 \<and> before < fst (hd xs)))"

text \<open>A run of \<open>n\<close> entries with consecutive docids from \<open>d\<close> on, all of length \<open>l\<close>.\<close>

fun run_from :: "docid \<Rightarrow> termcount \<Rightarrow> nat \<Rightarrow> doclen_entries" where
  "run_from d l 0 = []"
| "run_from d l (Suc n) = (d, l) # run_from (d + 1) l n"


section \<open>Facts about the codec and the table\<close>

lemma map_of_table_add: "map_of (table_add k v t) = (map_of t)(k \<mapsto> v)"
  by (induction t) (auto simp: fun_eq_iff)

lemma map_of_table_del: "map_of (table_del k t) = (map_of t)(k := None)"
  by (induction t) (auto simp: table_del_def fun_eq_iff)

lemma unat_of_nat_byte: "m < 256 \<Longrightarrow> unat (of_nat m :: byte) = m"
  by (simp add: unat_of_nat)

lemma unpack_pack_uint_nat: "unpack_uint_nat (pack_uint_nat n @ rest) = Some (n, rest)"
proof (induction n rule: pack_uint_nat.induct)
  case (1 n)
  show ?case
  proof (cases "n < 128")
    case True
    then have "(of_nat n :: byte) < 128"
      by (simp add: word_less_nat_alt unat_of_nat)
    moreover have "unat (of_nat n :: byte) = n"
      using True by (simp add: unat_of_nat)
    ultimately show ?thesis
      using True by (simp add: pack_uint_nat.simps [of n])
  next
    case False
    have lt: "n mod 128 + 128 < 256"
      using mod_less_divisor [of 128 n] by simp
    then have u: "unat (of_nat (n mod 128 + 128) :: byte) = n mod 128 + 128"
      by (rule unat_of_nat_byte)
    then have "\<not> (of_nat (n mod 128 + 128) :: byte) < 128"
      by (simp add: word_less_nat_alt)
    then show ?thesis
      using False 1 u by (simp add: pack_uint_nat.simps [of n])
  qed
qed

lemma unpack_pack_uint: "unpack_uint (pack_uint v @ rest) = Inr (v, rest)"
proof -
  have "unat v < 2 ^ 32"
    using unsigned_less [of v] by simp
  then show ?thesis
    by (simp add: unpack_uint_def pack_uint_def unpack_pack_uint_nat)
qed

lemma pack_uint_nat_nonempty: "pack_uint_nat n \<noteq> []"
  by (simp add: pack_uint_nat.simps [of n])

lemma pack_uint_nonempty: "pack_uint v \<noteq> []"
  by (simp add: pack_uint_def pack_uint_nat_nonempty)

lemma length_pack_in_bytes_nat: "length (pack_in_bytes_nat v n) = n"
  by (induction n arbitrary: v) auto

lemma length_pack_uint_in_bytes: "length (pack_uint_in_bytes v n) = n"
  by (simp add: pack_uint_in_bytes_def length_pack_in_bytes_nat)

lemma le_value_pack_in_bytes_nat: "le_value (pack_in_bytes_nat v n) = v mod 256 ^ n"
proof (induction n arbitrary: v)
  case 0
  then show ?case by simp
next
  case (Suc n)
  have "unat (of_nat (v mod 256) :: byte) = v mod 256"
    by (simp add: unat_of_nat)
  then show ?case
    using Suc by (simp add: mod_mult2_eq)
qed

lemma unpack_pack_uint_in_bytes:
  "unpack_uint_in_bytes n (pack_uint_in_bytes v n @ rest) = Inr (of_nat (unat v mod 256 ^ n), rest)"
  by (simp add: unpack_uint_in_bytes_def length_pack_uint_in_bytes)
     (simp add: pack_uint_in_bytes_def le_value_pack_in_bytes_nat)

lemma unpack_pack_uint_in_bytes_exact:
  "unat v < 256 ^ n \<Longrightarrow> unpack_uint_in_bytes n (pack_uint_in_bytes v n @ rest) = Inr (v, rest)"
  by (simp add: unpack_pack_uint_in_bytes)


lemma get_max_bytes_loop_spec:
  "unat n < 256 ^ k \<Longrightarrow>
   \<exists>j\<le>k. get_max_bytes_loop n l = l + of_nat j \<and> unat n < 256 ^ j \<and> (n \<noteq> 0 \<longrightarrow> 0 < j)"
proof (induction k arbitrary: n l)
  case 0
  then have "n = 0"
    by (simp add: unat_eq_0)
  then show ?case
    by (simp add: get_max_bytes_loop.simps [of 0])
next
  case (Suc k)
  show ?case
  proof (cases "n = 0")
    case True
    then show ?thesis
      by (intro exI [of _ 0]) (simp add: get_max_bytes_loop.simps [of 0])
  next
    case False
    have d: "unat (drop_bit 8 n) = unat n div 256"
      by (simp add: drop_bit_eq_div unat_div)
    with Suc.prems have "unat (drop_bit 8 n) < 256 ^ k"
      by (simp add: less_mult_imp_div_less mult.commute)
    from Suc.IH [OF this, of "l + 1"] obtain j where j: "j \<le> k"
      "get_max_bytes_loop (drop_bit 8 n) (l + 1) = l + 1 + of_nat j"
      "unat (drop_bit 8 n) < 256 ^ j"
      by blast
    have "unat n < 256 ^ Suc j"
      using j(3) d by (simp add: div_less_iff_less_mult mult.commute)
    then show ?thesis
      using False j by (intro exI [of _ "Suc j"]) (simp add: get_max_bytes_loop.simps [of n] add.assoc)
  qed
qed

lemma get_max_bytes_spec:
  "\<exists>j. 1 \<le> j \<and> j \<le> 4 \<and> get_max_bytes v = of_nat j \<and> unat v < 256 ^ j"
proof (cases "v = 0")
  case True
  then show ?thesis
    by (intro exI [of _ 1]) (simp add: get_max_bytes_def)
next
  case False
  have "unat v < 256 ^ 4"
    using unsigned_less [of v] by simp
  from get_max_bytes_loop_spec [OF this, of 0] False obtain j where
    "j \<le> 4" "get_max_bytes_loop v 0 = of_nat j" "unat v < 256 ^ j" "0 < j"
    by auto
  then show ?thesis
    using False by (intro exI [of _ j]) (simp add: get_max_bytes_def)
qed

lemma unat_get_max_bytes: "1 \<le> unat (get_max_bytes v) \<and> unat (get_max_bytes v) \<le> 4"
  using get_max_bytes_spec [of v] by (auto simp: unat_of_nat)

lemma get_max_bytes_fits: "unat v < 256 ^ unat (get_max_bytes v)"
  using get_max_bytes_spec [of v] by (auto simp: unat_of_nat)

lemma get_max_bytes_fits_le:
  assumes "get_max_bytes v \<le> mb"
  shows "unat v < 256 ^ unat mb"
proof -
  have "unat (get_max_bytes v) \<le> unat mb"
    using assms by (simp add: word_le_nat_alt)
  then have "(256 :: nat) ^ unat (get_max_bytes v) \<le> 256 ^ unat mb"
    by (simp add: power_increasing)
  with get_max_bytes_fits [of v] show ?thesis
    by linarith
qed

lemma encode_scan_spec:
  fixes rest :: doclen_entries
  defines "it \<equiv> \<lambda>r mb rest lc prev u g. fst (encode_scan r mb rest lc prev u g)"
  defines "run \<equiv> \<lambda>r mb rest lc prev u g. take (length rest - length (it r mb rest lc prev u g)) rest"
  shows "rest = run r mb rest lc prev u g @ it r mb rest lc prev u g
       \<and> fst (snd (encode_scan r mb rest lc prev u g)) = lc + of_nat (length (run r mb rest lc prev u g))
       \<and> consecutive ((prev, x) # run r mb rest lc prev u g)
       \<and> (\<forall>e\<in>set (run r mb rest lc prev u g). get_max_bytes (snd e) \<le> mb)
       \<and> (run r mb rest lc prev u g \<noteq> [] \<longrightarrow>
            \<not> ratio_below (g + of_nat (good_bytes_of (run r mb rest lc prev u g)))
                 (u + of_nat (used_bytes_of mb (run r mb rest lc prev u g))) r)"
proof (induction rest arbitrary: lc prev u g x)
  case Nil
  then show ?case
    by (simp add: run_def it_def)
next
  case (Cons e rest)
  obtain d l where e: "e = (d, l)"
    by (cases e)
  show ?case
  proof (cases "d \<noteq> prev + 1 \<or> get_max_bytes l > mb")
    case True
    then show ?thesis
      by (auto simp: e run_def it_def)
  next
    case False
    note acc = this
    show ?thesis
    proof (cases "ratio_below (g + get_max_bytes l) (u + mb) r")
      case True
      then show ?thesis
        using acc by (auto simp: e run_def it_def Let_def)
    next
      case False
      let ?lc = "lc + 1" and ?u = "u + mb" and ?g = "g + get_max_bytes l"
      have scan: "encode_scan r mb (e # rest) lc prev u g = encode_scan r mb rest ?lc d ?u ?g"
        using acc False by (simp add: e Let_def)
      have len: "length (it r mb rest ?lc d ?u ?g) \<le> length rest"
        unfolding it_def by (rule encode_scan_length)
      have it_eq: "it r mb (e # rest) lc prev u g = it r mb rest ?lc d ?u ?g"
        by (simp add: it_def scan)
      have run_eq: "run r mb (e # rest) lc prev u g = e # run r mb rest ?lc d ?u ?g"
        using len by (simp add: run_def it_eq Suc_diff_le)
      note IH = Cons.IH [of ?lc d ?u ?g l]
      have "\<not> ratio_below (g + of_nat (good_bytes_of (e # run r mb rest ?lc d ?u ?g)))
                 (u + of_nat (used_bytes_of mb (e # run r mb rest ?lc d ?u ?g))) r"
      proof (cases "run r mb rest ?lc d ?u ?g = []")
        case True
        then show ?thesis
          using False by (simp add: good_bytes_of_def used_bytes_of_def e)
      next
        case False
        then show ?thesis
          using IH by (simp add: good_bytes_of_def used_bytes_of_def e add.assoc)
      qed
      then show ?thesis
        unfolding run_eq it_eq scan using IH acc by (auto simp: e not_less)
    qed
  qed
qed


lemma encode_scan_outer:
  fixes rest :: doclen_entries and r :: rat and d l :: "32 word"
  defines "it \<equiv> fst (encode_scan r (get_max_bytes l) rest 1 d 0 0)"
  defines "run \<equiv> take (Suc (length rest) - length it) ((d, l) # rest)"
  shows "(d, l) # rest = run @ it"
    and "run = (d, l) # tl run"
    and "fst (snd (encode_scan r (get_max_bytes l) rest 1 d 0 0)) = of_nat (length run)"
    and "consecutive run"
    and "\<forall>e\<in>set run. get_max_bytes (snd e) \<le> get_max_bytes l"
    and "tl run \<noteq> [] \<Longrightarrow>
           \<not> ratio_below (of_nat (good_bytes_of (tl run)))
                (of_nat (used_bytes_of (get_max_bytes l) (tl run))) r"
proof -
  let ?tail = "take (length rest - length it) rest"
  have len: "length it \<le> length rest"
    unfolding it_def by (rule encode_scan_length)
  have run: "run = (d, l) # ?tail"
    using len by (simp add: run_def Suc_diff_le)
  note spec = encode_scan_spec [of rest r "get_max_bytes l" 1 d 0 0 l, folded it_def]
  show "(d, l) # rest = run @ it"
    using spec by (simp add: run)
  show "run = (d, l) # tl run"
    by (simp add: run)
  show "fst (snd (encode_scan r (get_max_bytes l) rest 1 d 0 0)) = of_nat (length run)"
    using spec by (simp add: run)
  show "consecutive run"
    using spec by (simp add: run)
  show "\<forall>e\<in>set run. get_max_bytes (snd e) \<le> get_max_bytes l"
    using spec by (simp add: run)
  show "\<not> ratio_below (of_nat (good_bytes_of (tl run)))
            (of_nat (used_bytes_of (get_max_bytes l) (tl run))) r" if "tl run \<noteq> []"
    using spec that by (simp add: run)
qed

lemma encode_fixed_run_eq:
  "encode_fixed_run n run (b, c) =
     (if run = [] then b else fst (last run),
      c @ concat (map (\<lambda>e. pack_uint_in_bytes (snd e) n) run))"
  by (induction run arbitrary: b c) auto

lemma block_bytes_normal_append:
  "block_bytes b (map (\<lambda>e. Normal (fst e) (snd e)) run @ bs) =
     block_bytes b (map (\<lambda>e. Normal (fst e) (snd e)) run)
       @ block_bytes (if run = [] then b else fst (last run)) bs"
  by (induction run arbitrary: b) auto

lemma encode_normal_run_eq:
  "encode_normal_run run (b, c) =
     (if run = [] then b else fst (last run),
      c @ block_bytes b (map (\<lambda>e. Normal (fst e) (snd e)) run))"
  by (induction run arbitrary: b c) auto

lemma encode_loop_blocks:
  "encode_loop mc r xs before chunk' = chunk' @ block_bytes before (encode_blocks mc r xs)"
proof (induction "length xs" arbitrary: xs before chunk' rule: less_induct)
  case less
  show ?case
  proof (cases xs)
    case Nil
    then show ?thesis
      by (simp add: encode_loop.simps encode_blocks.simps)
  next
    case (Cons e rest)
    obtain d l where e: "e = (d, l)"
      by (cases e)
    define it where "it = fst (encode_scan r (get_max_bytes l) rest 1 d 0 0)"
    define run where "run = take (Suc (length rest) - length it) ((d, l) # rest)"
    define lc where "lc = fst (snd (encode_scan r (get_max_bytes l) rest 1 d 0 0))"
    have run: "run = (d, l) # tl run" and lc: "lc = of_nat (length run)"
      using encode_scan_outer(2,3) [where d = d and l = l and rest = rest and r = r]
      by (simp_all add: run_def it_def lc_def)
    then have ne: "run \<noteq> []" and hd: "fst (hd run) = d"
      by (metis list.distinct(1), metis fst_conv list.sel(1))
    have "length it < length xs"
      using encode_scan_length [of r "get_max_bytes l" rest 1 d 0 0]
      by (simp add: it_def Cons less_Suc_eq_le)
    note IH = less [OF this]
    show ?thesis
    proof (cases "lc > mc")
      case True
      have "encode_loop mc r ((d, l) # rest) before chunk' =
          encode_loop mc r it (fst (last run))
            (chunk' @ pack_uint SEPERATOR @ pack_uint (d - before) @ pack_uint_in_bytes lc 2
               @ pack_uint_in_bytes (get_max_bytes l) 1
               @ concat (map (\<lambda>e. pack_uint_in_bytes (snd e) (unat (get_max_bytes l))) run))"
        using True ne
        by (simp add: encode_loop.simps(2) [of mc r d l rest] Let_def encode_fixed_run_eq
            it_def [symmetric] run_def [symmetric] lc_def [symmetric])
      also have "\<dots> = chunk' @ block_bytes before (Fixed (get_max_bytes l) run # encode_blocks mc r it)"
        by (simp add: IH hd lc)
      also have "Fixed (get_max_bytes l) run # encode_blocks mc r it = encode_blocks mc r ((d, l) # rest)"
        using True
        by (simp add: encode_blocks.simps(2) [of mc r d l rest] Let_def
            it_def [symmetric] run_def [symmetric] lc_def [symmetric])
      finally show ?thesis
        by (simp add: Cons e)
    next
      case False
      have "encode_loop mc r ((d, l) # rest) before chunk' =
          encode_loop mc r it (fst (last run))
            (chunk' @ block_bytes before (map (\<lambda>e. Normal (fst e) (snd e)) run))"
        using False ne
        by (simp add: encode_loop.simps(2) [of mc r d l rest] Let_def encode_normal_run_eq
            it_def [symmetric] run_def [symmetric] lc_def [symmetric])
      also have "\<dots> = chunk' @ block_bytes before
          (map (\<lambda>e. Normal (fst e) (snd e)) run @ encode_blocks mc r it)"
        by (simp add: IH block_bytes_normal_append ne)
      also have "map (\<lambda>e. Normal (fst e) (snd e)) run @ encode_blocks mc r it
          = encode_blocks mc r ((d, l) # rest)"
        using False
        by (simp add: encode_blocks.simps(2) [of mc r d l rest] Let_def
            it_def [symmetric] run_def [symmetric] lc_def [symmetric])
      finally show ?thesis
        by (simp add: Cons e)
    qed
  qed
qed

lemma pack_uint_small: "unat v < 128 \<Longrightarrow> pack_uint v = [ucast v]"
  by (simp add: pack_uint_def pack_uint_nat.simps [of "unat v"])

lemma unpack_uint_small: "b < 128 \<Longrightarrow> unpack_uint (b # bs) = Inr (ucast b, bs)"
proof -
  assume "b < 128"
  moreover from this have "unat b < 4294967296"
    using unsigned_less [of b] by (simp add: word_less_nat_alt)
  ultimately show ?thesis
    by (simp add: unpack_uint_def)
qed


section \<open>The blocks that encode emits\<close>

lemma encode_blocks_step:
  fixes rest :: doclen_entries and r :: rat and d l mc :: "32 word"
  obtains run it where "(d, l) # rest = run @ it" and "run = (d, l) # tl run"
    and "consecutive run"
    and "\<forall>e\<in>set run. get_max_bytes (snd e) \<le> get_max_bytes l"
    and "tl run \<noteq> [] \<longrightarrow>
           \<not> ratio_below (of_nat (good_bytes_of (tl run)))
                (of_nat (used_bytes_of (get_max_bytes l) (tl run))) r"
    and "(mc < of_nat (length run)
          \<and> encode_blocks mc r ((d, l) # rest) = Fixed (get_max_bytes l) run # encode_blocks mc r it)
       \<or> (\<not> mc < of_nat (length run)
          \<and> encode_blocks mc r ((d, l) # rest)
              = map (\<lambda>e. Normal (fst e) (snd e)) run @ encode_blocks mc r it)"
proof -
  define it where "it = fst (encode_scan r (get_max_bytes l) rest 1 d 0 0)"
  define run where "run = take (Suc (length rest) - length it) ((d, l) # rest)"
  note outer = encode_scan_outer [where d = d and l = l and rest = rest and r = r,
      folded it_def, folded run_def]
  have "(mc < of_nat (length run)
          \<and> encode_blocks mc r ((d, l) # rest) = Fixed (get_max_bytes l) run # encode_blocks mc r it)
       \<or> (\<not> mc < of_nat (length run)
          \<and> encode_blocks mc r ((d, l) # rest)
              = map (\<lambda>e. Normal (fst e) (snd e)) run @ encode_blocks mc r it)"
    using outer(3)
    by (simp add: encode_blocks.simps(2) [of mc r d l rest] Let_def
        it_def [symmetric] run_def [symmetric])
  then show thesis
    using outer(1,2,4,5,6) that [of run it] by blast
qed

lemma block_entries_append:
  "block_entries (bs @ bs') = block_entries bs @ block_entries bs'"
  by (induction bs rule: block_entries.induct) auto

lemma block_entries_normal: "block_entries (map (\<lambda>e. Normal (fst e) (snd e)) run) = run"
  by (induction run) auto

lemma block_entries_encode_blocks: "block_entries (encode_blocks mc r xs) = xs"
proof (induction "length xs" arbitrary: xs rule: less_induct)
  case less
  show ?case
  proof (cases xs)
    case Nil
    then show ?thesis
      by (simp add: encode_blocks.simps)
  next
    case (Cons e rest)
    obtain d l where e: "e = (d, l)"
      by (cases e)
    obtain run it where step: "(d, l) # rest = run @ it" "run = (d, l) # tl run"
      "(mc < of_nat (length run)
          \<and> encode_blocks mc r ((d, l) # rest) = Fixed (get_max_bytes l) run # encode_blocks mc r it)
       \<or> (\<not> mc < of_nat (length run)
          \<and> encode_blocks mc r ((d, l) # rest)
              = map (\<lambda>e. Normal (fst e) (snd e)) run @ encode_blocks mc r it)"
      by (rule encode_blocks_step [of d l rest r mc])
    have "length it < length xs"
      using step(1,2) Cons e by (metis length_append length_Cons less_add_same_cancel2 zero_less_Suc add.commute)
    from less [OF this] have "block_entries (encode_blocks mc r it) = it" .
    then show ?thesis
      using step by (auto simp: Cons e block_entries_append block_entries_normal)
  qed
qed


lemma fixed_block_of_encode_blocks:
  assumes "Fixed mb run \<in> set (encode_blocks mc r xs)"
  shows "run \<noteq> [] \<and> mb = get_max_bytes (snd (hd run)) \<and> consecutive run
       \<and> mc < of_nat (length run) \<and> length run \<le> length xs
       \<and> (\<forall>e\<in>set run. get_max_bytes (snd e) \<le> mb)
       \<and> (tl run \<noteq> [] \<longrightarrow>
            \<not> ratio_below (of_nat (good_bytes_of (tl run))) (of_nat (used_bytes_of mb (tl run))) r)"
  using assms
proof (induction "length xs" arbitrary: xs rule: less_induct)
  case less
  show ?case
  proof (cases xs)
    case Nil
    then show ?thesis
      using less.prems by (simp add: encode_blocks.simps)
  next
    case (Cons e rest)
    obtain d l where e: "e = (d, l)"
      by (cases e)
    obtain run' it where step: "(d, l) # rest = run' @ it" "run' = (d, l) # tl run'"
      "consecutive run'" "\<forall>e\<in>set run'. get_max_bytes (snd e) \<le> get_max_bytes l"
      "tl run' \<noteq> [] \<longrightarrow>
           \<not> ratio_below (of_nat (good_bytes_of (tl run')))
                (of_nat (used_bytes_of (get_max_bytes l) (tl run'))) r"
      "(mc < of_nat (length run')
          \<and> encode_blocks mc r ((d, l) # rest) = Fixed (get_max_bytes l) run' # encode_blocks mc r it)
       \<or> (\<not> mc < of_nat (length run')
          \<and> encode_blocks mc r ((d, l) # rest)
              = map (\<lambda>e. Normal (fst e) (snd e)) run' @ encode_blocks mc r it)"
      by (rule encode_blocks_step [of d l rest r mc])
    have len: "length xs = length run' + length it" and ne: "run' \<noteq> []"
      using step(1,2) Cons e by (metis length_append, metis list.distinct(1))
    then have "length it < length xs"
      by (cases run') auto
    note IH = less.hyps [OF this]
    from less.prems step(6) consider
      (here) "mc < of_nat (length run')" "mb = get_max_bytes l" "run = run'"
      | (later) "Fixed mb run \<in> set (encode_blocks mc r it)"
      by (auto simp: Cons e)
    then show ?thesis
    proof cases
      case here
      have "snd (hd run') = l"
        using step(2) by (metis list.sel(1) snd_conv)
      then show ?thesis
        using here step(3,4,5) ne len by auto
    next
      case later
      from IH [OF this] show ?thesis
        using len by auto
    qed
  qed
qed


lemma get_max_bytes_small:
  assumes "unat v < 256"
  shows "get_max_bytes v = 1"
proof (cases "v = 0")
  case True
  then show ?thesis
    by (simp add: get_max_bytes_def)
next
  case False
  from get_max_bytes_loop_spec [of v 1 0] assms False obtain j where
    "j \<le> 1" "get_max_bytes_loop v 0 = of_nat j" "0 < j"
    by auto
  moreover from this have "j = 1"
    by linarith
  ultimately show ?thesis
    using False by (simp add: get_max_bytes_def)
qed

lemma good_bytes_of_le: "good_bytes_of es \<le> 4 * length es"
proof (induction es)
  case Nil
  then show ?case by (simp add: good_bytes_of_def)
next
  case (Cons e es)
  then show ?case
    using unat_get_max_bytes [of "snd e"] by (simp add: good_bytes_of_def)
qed

lemma unat_of_nat_32: "n < 2 ^ 32 \<Longrightarrow> unat (of_nat n :: 32 word) = n"
  by (simp add: unat_of_nat)

lemma encode_blocks_example:
  "encode_blocks 2 (4 / 5) [(1, 5), (2, 5), (3, 5), (4, 6), (10, 300), (11, 1)]
     = [Fixed 1 [(1, 5), (2, 5), (3, 5), (4, 6)], Normal 10 300, Normal 11 1]"
  by (simp add: encode_blocks.simps get_max_bytes_small ratio_below_def Let_def
      get_max_bytes_def [of 300] get_max_bytes_loop.simps)

text \<open>
  C6: whenever \<open>FixedWidthChunk::encode\<close> emits a block in the fixed-width format, the
  docids of the block go up by one from entry to entry, the block is longer than
  \<open>DOCLEN_CHUNK_MIN_CONTIGUOUS_LENGTH\<close>, and the ratio of \<open>good_bytes\<close> to \<open>used_bytes\<close>
  accumulated over the entries that extended the block (those after its first entry) is
  at least \<open>DOCLEN_CHUNK_MIN_GOOD_BYTES_RATIO\<close>. The first conjunct ties the blocks to the
  bytes \<open>encode\<close> appends. The map has fewer than \<open>2^30\<close> entries, so that the 32-bit
  counters do not wrap.
\<close>

theorem encode_dense_block_admission:
  assumes "length M < 2 ^ 30"
  shows "snd (encode mc r M chunk') = chunk' @ block_bytes (fst (hd M)) (encode_blocks mc r M)
       \<and> (\<forall>b\<in>set (encode_blocks mc r M). \<forall>mb run. b = Fixed mb run \<longrightarrow>
            consecutive run \<and> unat mc < length run
            \<and> (tl run \<noteq> [] \<longrightarrow>
                 r \<le> of_nat (good_bytes_of (tl run)) / of_nat (used_bytes_of mb (tl run))))"
proof (intro conjI ballI allI impI)
  show "snd (encode mc r M chunk') = chunk' @ block_bytes (fst (hd M)) (encode_blocks mc r M)"
    by (cases M) (auto simp: encode_def encode_loop_blocks encode_blocks.simps(1))
next
  fix b mb run
  assume "b \<in> set (encode_blocks mc r M)" and "b = Fixed mb run"
  then have mem: "Fixed mb run \<in> set (encode_blocks mc r M)"
    by simp
  note fb = fixed_block_of_encode_blocks [OF mem]
  then have len: "length run < 2 ^ 30"
    using assms by linarith
  show "consecutive run"
    using fb by simp
  have "unat (of_nat (length run) :: 32 word) = length run"
    using len by (intro unat_of_nat_32) simp
  then show "unat mc < length run"
    using fb by (simp add: word_less_nat_alt)
  show "r \<le> of_nat (good_bytes_of (tl run)) / of_nat (used_bytes_of mb (tl run))"
    if "tl run \<noteq> []"
  proof -
    let ?g = "good_bytes_of (tl run)" and ?u = "used_bytes_of mb (tl run)"
    have mb: "1 \<le> unat mb" "unat mb \<le> 4"
      using fb unat_get_max_bytes [of "snd (hd run)"] by simp_all
    have lt: "length (tl run) < 2 ^ 30"
      using len by simp
    have "?g \<le> 4 * length (tl run)"
      by (rule good_bytes_of_le)
    then have g: "unat (of_nat ?g :: 32 word) = ?g"
      using lt by (intro unat_of_nat_32) simp
    have "?u \<le> length (tl run) * 4"
      using mb by (simp add: used_bytes_of_def)
    then have u: "unat (of_nat ?u :: 32 word) = ?u"
      using lt by (intro unat_of_nat_32) simp
    have pos: "0 < ?u"
      using mb that by (cases "tl run") (auto simp: used_bytes_of_def)
    then have "(of_nat ?u :: 32 word) \<noteq> 0"
      using u by (metis less_numeral_extra(3) unat_0)
    moreover have "\<not> ratio_below (of_nat ?g) (of_nat ?u) r"
      using fb that by blast
    ultimately show ?thesis
      by (simp add: ratio_below_def g u not_less)
  qed
qed


theorem encode_dense_block_admission_witness:
  "length [(1, 5), (2, 5), (3, 5), (4, 6), (10, 300), (11, 1 :: 32 word) :: 32 word \<times> 32 word] < 2 ^ 30
   \<and> Fixed 1 [(1, 5), (2, 5), (3, 5), (4, 6)]
       \<in> set (encode_blocks 2 (4 / 5) [(1, 5), (2, 5), (3, 5), (4, 6), (10, 300), (11, 1)])
   \<and> consecutive [(1, 5), (2, 5), (3, 5), (4, 6 :: 32 word) :: 32 word \<times> 32 word]
   \<and> unat (2 :: 32 word) < length [(1, 5), (2, 5), (3, 5), (4, 6 :: 32 word) :: 32 word \<times> 32 word]
   \<and> (4 / 5 :: rat) \<le> of_nat (good_bytes_of [(2, 5), (3, 5), (4, 6)])
                        / of_nat (used_bytes_of 1 [(2, 5), (3, 5), (4, 6)])"
proof -
  have len: "length [(1, 5), (2, 5), (3, 5), (4, 6), (10, 300), (11, 1 :: 32 word) :: 32 word \<times> 32 word] < 2 ^ 30"
    by simp
  have mem: "Fixed 1 [(1, 5), (2, 5), (3, 5), (4, 6)]
      \<in> set (encode_blocks 2 (4 / 5) [(1, 5), (2, 5), (3, 5), (4, 6), (10, 300), (11, 1)])"
    by (simp add: encode_blocks_example)
  from encode_dense_block_admission [OF len, of 2 "4 / 5" "[]"] mem show ?thesis
    by fastforce
qed

section \<open>Reading back what encode writes\<close>

lemma map_insert_append:
  "\<forall>k\<in>fst ` set acc. k < d \<Longrightarrow> map_insert (d, l) acc = acc @ [(d, l)]"
  by (induction acc) auto

lemma decode_block_run:
  assumes "consecutive run" and "\<forall>e\<in>set run. unat (snd e) < 256 ^ n"
    and "sorted_wrt (<) (map fst (acc @ run))" and "run \<noteq> []"
  shows "decode_block (length run) n
           (concat (map (\<lambda>e. pack_uint_in_bytes (snd e) n) run) @ rest) (fst (hd run)) acc
         = Inr (rest, fst (last run) + 1, acc @ run)"
  using assms
proof (induction run arbitrary: acc)
  case Nil
  then show ?case by simp
next
  case (Cons e run)
  obtain d l where e: "e = (d, l)"
    by (cases e)
  have ins: "map_insert (d, l) acc = acc @ [(d, l)]"
    using Cons.prems(3) by (intro map_insert_append) (auto simp: e sorted_wrt_append)
  have fit: "unat l < 256 ^ n"
    using Cons.prems(2) by (simp add: e)
  show ?case
  proof (cases run)
    case Nil
    then show ?thesis
      using ins fit by (simp add: e unpack_pack_uint_in_bytes_exact)
  next
    case (Cons e' run')
    have hd: "fst (hd run) = d + 1" and ne: "run \<noteq> []"
      using Cons.prems(1) Cons by (simp_all add: e)
    have "decode_block (length run) n
           (concat (map (\<lambda>e. pack_uint_in_bytes (snd e) n) run) @ rest) (fst (hd run))
           (acc @ [(d, l)])
         = Inr (rest, fst (last run) + 1, (acc @ [(d, l)]) @ run)"
      using Cons.prems Cons by (intro Cons.IH) (auto simp: e)
    then have "decode_block (length run) n
           (concat (map (\<lambda>e. pack_uint_in_bytes (snd e) n) run) @ rest) (d + 1)
           (acc @ [(d, l)])
         = Inr (rest, fst (last run) + 1, acc @ (d, l) # run)"
      by (simp add: hd)
    then show ?thesis
      using ins fit ne by (simp add: e unpack_pack_uint_in_bytes_exact)
  qed
qed

lemma unchecked_unpack_pack_uint:
  "unchecked_read (unpack_uint (pack_uint v @ rest)) = Inr (v, rest)"
  by (simp add: unchecked_read_def unpack_pack_uint)

lemma decode_loop_blocks:
  assumes "blocks_ok before bs" and "sorted_wrt (<) (map fst (acc @ block_entries bs))"
  shows "decode_loop (block_bytes before bs) before acc = Inr (acc @ block_entries bs)"
  using assms
proof (induction bs arbitrary: before acc)
  case Nil
  then show ?case
    by (simp add: decode_loop.simps)
next
  case (Cons b bs)
  show ?case
  proof (cases b)
    case (Normal d l)
    have ins: "map_insert (d, l) acc = acc @ [(d, l)]"
      using Cons.prems(2) by (intro map_insert_append) (auto simp: Normal sorted_wrt_append)
    have "decode_loop (block_bytes d bs) d (acc @ [(d, l)])
        = Inr ((acc @ [(d, l)]) @ block_entries bs)"
      using Cons.prems by (intro Cons.IH) (auto simp: Normal)
    then show ?thesis
      using Cons.prems(1) ins
      by (simp add: Normal decode_loop.simps [of "pack_uint (d - before) @ _"]
          pack_uint_nonempty unchecked_unpack_pack_uint)
  next
    case (Fixed mb run)
    from Cons.prems(1) have ok: "run \<noteq> []" "consecutive run" "length run < 65536"
      "unat mb < 256" "\<forall>e\<in>set run. unat (snd e) < 256 ^ unat mb" "blocks_ok (fst (last run)) bs"
      by (simp_all add: Fixed)
    have len: "unat (of_nat (length run) :: 32 word) = length run"
      using ok(3) by (simp add: unat_of_nat)
    have blk: "decode_block (length run) (unat mb)
           (concat (map (\<lambda>e. pack_uint_in_bytes (snd e) (unat mb)) run)
              @ block_bytes (fst (last run)) bs) (fst (hd run)) acc
         = Inr (block_bytes (fst (last run)) bs, fst (last run) + 1, acc @ run)"
      using ok Cons.prems(2) by (intro decode_block_run) (auto simp: Fixed sorted_wrt_append)
    have "decode_loop (block_bytes (fst (last run)) bs) (fst (last run)) (acc @ run)
        = Inr ((acc @ run) @ block_entries bs)"
      using ok(6) Cons.prems(2) by (intro Cons.IH) (auto simp: Fixed)
    then show ?thesis
      using blk
      by (simp add: Fixed decode_loop.simps [of "pack_uint SEPERATOR @ _"]
          pack_uint_nonempty unchecked_unpack_pack_uint unpack_pack_uint_in_bytes_exact len ok(3,4))
  qed
qed


lemma word_diff_not_max:
  fixes a b :: "32 word"
  assumes "a < b" and "a \<noteq> 0"
  shows "b - a \<noteq> - 1"
proof
  assume "b - a = - 1"
  then have "b = a - 1"
    by (metis diff_add_cancel uminus_add_conv_diff)
  moreover have "unat (a - 1) = unat a - 1"
    using assms(2) by (simp add: unat_minus_one)
  moreover have "0 < unat a"
    using assms(2) by (simp add: unat_gt_0)
  ultimately have "unat b < unat a"
    by simp
  then show False
    using assms(1) by (simp add: word_less_nat_alt)
qed

lemma blocks_ok_normal_append:
  "blocks_ok before (map (\<lambda>e. Normal (fst e) (snd e)) run @ bs) =
     (blocks_ok before (map (\<lambda>e. Normal (fst e) (snd e)) run)
      \<and> blocks_ok (if run = [] then before else fst (last run)) bs)"
  by (induction run arbitrary: before) auto

lemma blocks_ok_normal:
  assumes "sorted_wrt (<) (map fst run)" and "\<forall>e\<in>set run. fst e \<noteq> 0" and "start_ok before run"
  shows "blocks_ok before (map (\<lambda>e. Normal (fst e) (snd e)) run)"
  using assms
proof (induction run arbitrary: before)
  case Nil
  then show ?case by simp
next
  case (Cons e run)
  have "fst e - before \<noteq> SEPERATOR"
    using Cons.prems(3) word_diff_not_max [of before "fst e"]
    by (auto simp: start_ok_def SEPERATOR_def)
  moreover have "start_ok (fst e) run"
    using Cons.prems(1,2) by (cases run) (auto simp: start_ok_def)
  ultimately show ?case
    using Cons by auto
qed

lemma blocks_ok_encode_blocks:
  assumes "sorted_wrt (<) (map fst xs)" and "\<forall>e\<in>set xs. fst e \<noteq> 0" and "length xs < 65536"
    and "start_ok before xs"
  shows "blocks_ok before (encode_blocks mc r xs)"
  using assms
proof (induction "length xs" arbitrary: xs before rule: less_induct)
  case less
  show ?case
  proof (cases xs)
    case Nil
    then show ?thesis
      by (simp add: encode_blocks.simps)
  next
    case (Cons e rest)
    obtain d l where e: "e = (d, l)"
      by (cases e)
    obtain run it where step: "(d, l) # rest = run @ it" "run = (d, l) # tl run"
      "consecutive run" "\<forall>e\<in>set run. get_max_bytes (snd e) \<le> get_max_bytes l"
      "(mc < of_nat (length run)
          \<and> encode_blocks mc r ((d, l) # rest) = Fixed (get_max_bytes l) run # encode_blocks mc r it)
       \<or> (\<not> mc < of_nat (length run)
          \<and> encode_blocks mc r ((d, l) # rest)
              = map (\<lambda>e. Normal (fst e) (snd e)) run @ encode_blocks mc r it)"
      by (rule encode_blocks_step [of d l rest r mc])
    have xs: "xs = run @ it" and ne: "run \<noteq> []"
      using step(1,2) Cons e by (simp, metis list.distinct(1))
    then have "length it < length xs"
      by (cases run) auto
    moreover have "sorted_wrt (<) (map fst it)" "\<forall>e\<in>set it. fst e \<noteq> 0" "length it < 65536"
      using less.prems xs by (auto simp: sorted_wrt_append)
    moreover have "start_ok (fst (last run)) it"
    proof (cases it)
      case Nil
      then show ?thesis by (simp add: start_ok_def)
    next
      case (Cons e' it')
      have "last run \<in> set run"
        using ne by simp
      then have "fst (last run) < fst e'" "fst (last run) \<noteq> 0"
        using less.prems(1,2) xs Cons by (auto simp: sorted_wrt_append)
      then show ?thesis
        by (simp add: start_ok_def Cons)
    qed
    ultimately have IH: "blocks_ok (fst (last run)) (encode_blocks mc r it)"
      by (rule less.hyps)
    have "hd run = hd xs"
      using xs ne by simp
    then have start: "start_ok before run"
      using less.prems(4) ne Cons by (simp add: start_ok_def)
    have fits: "\<forall>e\<in>set run. unat (snd e) < 256 ^ unat (get_max_bytes l)"
      using step(4) get_max_bytes_fits_le by blast
    have "unat (get_max_bytes l) < 256"
      using unat_get_max_bytes [of l] by simp
    moreover have "length run < 65536"
      using less.prems(3) xs by simp
    moreover have "blocks_ok before (map (\<lambda>e. Normal (fst e) (snd e)) run)"
      using less.prems(1,2) xs start by (intro blocks_ok_normal) (auto simp: sorted_wrt_append)
    ultimately show ?thesis
      using step(3,5) IH ne fits by (auto simp: Cons e blocks_ok_normal_append)
  qed
qed

text \<open>
  C2 (amended): for every non-empty map \<open>M\<close> from docid to doclen, in strictly increasing
  docid order, with no docid 0 and fewer than 65536 entries, the body that
  \<open>FixedWidthChunk::encode\<close> writes for \<open>M\<close> is read back by the decoding loop of
  \<open>DoclenChunkWriter::get_new_doclen\<close> (started, as the writer does, at the first docid
  of the chunk) as exactly \<open>M\<close>, whatever the two tuning constants are.
\<close>

lemma encode_block_bytes:
  "M \<noteq> [] \<Longrightarrow> snd (encode min_contig min_ratio M [])
     = block_bytes (fst (hd M)) (encode_blocks min_contig min_ratio M)"
  by (cases M) (auto simp: encode_def encode_loop_blocks)

theorem encode_decode_roundtrip:
  assumes "M \<noteq> []" and "sorted_wrt (<) (map fst M)" and "\<forall>e\<in>set M. fst e \<noteq> 0"
    and "length M < 65536"
  shows "decode_loop (snd (encode min_contig min_ratio M [])) (fst (hd M)) [] = Inr M"
proof -
  have "start_ok (fst (hd M)) M"
    by (simp add: start_ok_def)
  then have "blocks_ok (fst (hd M)) (encode_blocks min_contig min_ratio M)"
    using assms by (intro blocks_ok_encode_blocks)
  moreover have "snd (encode min_contig min_ratio M []) =
      block_bytes (fst (hd M)) (encode_blocks min_contig min_ratio M)"
    using assms(1) by (cases M) (auto simp: encode_def encode_loop_blocks)
  ultimately show ?thesis
    using assms(2) decode_loop_blocks [of "fst (hd M)" "encode_blocks min_contig min_ratio M" "[]"]
    by (simp add: block_entries_encode_blocks)
qed


theorem encode_decode_roundtrip_witness:
  "decode_loop (snd (encode 2 (4 / 5) [(1, 5), (2, 5), (3, 5), (4, 6), (10, 300), (11, 1)] []))
     1 [] = Inr [(1, 5), (2, 5), (3, 5), (4, 6), (10, 300), (11, 1)]"
  using encode_decode_roundtrip [of "[(1, 5), (2, 5), (3, 5), (4, 6), (10, 300), (11, 1)]" 2 "4 / 5"]
  by simp

lemma length_run_from: "length (run_from d l n) = n"
  by (induction n arbitrary: d) auto

lemma encode_scan_run_from:
  assumes "r \<le> 1" and "get_max_bytes l = mb"
  shows "fst (encode_scan r mb (run_from (prev + 1) l n) lc prev g g) = []
       \<and> fst (snd (encode_scan r mb (run_from (prev + 1) l n) lc prev g g)) = lc + of_nat n"
proof (induction n arbitrary: prev lc g)
  case 0
  then show ?case by simp
next
  case (Suc n)
  have "\<not> ratio_below (g + mb) (g + mb) r"
  proof (cases "g + mb = 0")
    case True
    then show ?thesis
      by (simp add: ratio_below_def)
  next
    case False
    then have "0 < unat (g + mb)"
      by (simp add: unat_gt_0)
    then have "(of_nat (unat (g + mb)) :: rat) / of_nat (unat (g + mb)) = 1"
      using False by (simp add: unsigned_eq_0_iff)
    then have "\<not> (of_nat (unat (g + mb)) :: rat) / of_nat (unat (g + mb)) < r"
      using assms(1) by (simp only: not_less)
    then show ?thesis
      unfolding ratio_below_def by blast
  qed
  then show ?case
    using Suc [of "prev + 1" "lc + 1" "g + mb"] assms(2) by (simp add: Let_def)
qed

lemma encode_blocks_run_from:
  assumes "r \<le> 1" and "mc < of_nat (Suc n)"
  shows "encode_blocks mc r (run_from d l (Suc n)) = [Fixed (get_max_bytes l) (run_from d l (Suc n))]"
  using encode_scan_run_from [OF assms(1) refl, of l d n 1 0] assms(2)
  by (simp add: encode_blocks.simps Let_def length_run_from add.commute)

lemma length_map_insert: "length (map_insert e m) \<le> Suc (length m)"
  by (induction e m rule: map_insert.induct) auto

lemma decode_loop_ones:
  "decode_loop (replicate (2 * k) 1) c acc = Inr res \<Longrightarrow> length res \<le> length acc + k"
proof (induction k arbitrary: c acc)
  case 0
  then show ?case
    by (simp add: decode_loop.simps)
next
  case (Suc k)
  have "decode_loop (replicate (2 * Suc k) 1) c acc
      = decode_loop (replicate (2 * k) 1) (c + 1) (map_insert (c + 1, 1) acc)"
    by (simp add: decode_loop.simps [of "1 # _"] unchecked_read_def unpack_uint_small
        SEPERATOR_def)
  with Suc.prems Suc.IH [of "c + 1" "map_insert (c + 1, 1) acc"]
  have "length res \<le> length (map_insert (c + 1, 1) acc) + k"
    by simp
  then show ?case
    using length_map_insert [of "(c + 1, 1)" acc] by simp
qed

lemma concat_run_from_ones:
  "concat (map (\<lambda>e. pack_uint_in_bytes (snd e) (Suc 0)) (run_from d 1 n)) = replicate n 1"
  by (induction n arbitrary: d) (auto simp: pack_uint_in_bytes_def)

text \<open>
  C2, as stated, fails on a map of 65536 consecutive docids with equal lengths: the
  block is written in the fixed-width format, its number of entries does not fit the two
  bytes it is written in, and the decoding loop reads at most 32768 entries back.
\<close>

theorem encode_decode_long_run_counterexample:
  "decode_loop (snd (encode 5 (4 / 5) (run_from 1 1 65536) [])) (fst (hd (run_from 1 1 65536))) []
     \<noteq> Inr (run_from 1 1 65536)"
proof
  let ?M = "run_from 1 1 65536"
  assume eq: "decode_loop (snd (encode 5 (4 / 5) ?M [])) (fst (hd ?M)) [] = Inr ?M"
  have M: "?M = (1, 1) # run_from 2 1 65535"
    using run_from.simps(2) [of 1 1 65535] by simp
  have blocks: "encode_blocks 5 (4 / 5) ?M = [Fixed 1 ?M]"
    using encode_blocks_run_from [of "4 / 5" 5 65535 1 1] by (simp add: get_max_bytes_small)
  have ne: "?M \<noteq> []" and hd: "fst (hd ?M) = 1"
    by (simp_all only: M list.sel fst_conv list.distinct not_False_eq_True)
  then have "snd (encode 5 (4 / 5) ?M []) = block_bytes 1 (encode_blocks 5 (4 / 5) ?M)"
    using encode_block_bytes [of ?M 5 "4 / 5"] by simp
  also have "\<dots> = pack_uint SEPERATOR @ pack_uint 0 @ pack_uint_in_bytes 65536 2
      @ pack_uint_in_bytes 1 1 @ replicate 65536 1"
    by (simp add: blocks length_run_from concat_run_from_ones hd)
  finally have bytes: "snd (encode 5 (4 / 5) ?M []) = pack_uint SEPERATOR @ pack_uint 0
      @ pack_uint_in_bytes 65536 2 @ pack_uint_in_bytes 1 1 @ replicate 65536 1" .
  have "decode_loop (snd (encode 5 (4 / 5) ?M [])) 1 [] = decode_loop (replicate (2 * 32768) 1) 0 []"
    unfolding bytes
    by (simp add: decode_loop.simps [of "pack_uint SEPERATOR @ _"] pack_uint_nonempty
        unchecked_unpack_pack_uint unpack_pack_uint_in_bytes)
  with eq hd have "decode_loop (replicate (2 * 32768) 1) 0 [] = Inr ?M"
    by simp
  from decode_loop_ones [OF this] show False
    by (simp add: length_run_from)
qed

section \<open>The reader over the blocks of a chunk\<close>

text \<open>
  The docid of the last entry of a sequence of blocks (the docid before it when it is
  empty), and the states of a \<open>FixedWidthChunkReader\<close> on the bytes of the blocks \<open>bs\<close>:
  between two blocks, or inside a block in the fixed-width format at its entry \<open>k\<close>.
\<close>

fun last_did :: "docid \<Rightarrow> block list \<Rightarrow> docid" where
  "last_did before [] = before"
| "last_did before (Normal d l # bs) = last_did d bs"
| "last_did before (Fixed max_bytes run # bs) = last_did (fst (last run)) bs"

lemma block_bytes_append:
  "block_bytes before (pre @ post) = block_bytes before pre @ block_bytes (last_did before pre) post"
  by (induction before pre rule: block_bytes.induct) auto

lemma last_did_append:
  "last_did before (pre @ post) = last_did (last_did before pre) post"
  by (induction before pre rule: last_did.induct) auto

lemma blocks_ok_append:
  "blocks_ok before (pre @ post) = (blocks_ok before pre \<and> blocks_ok (last_did before pre) post)"
  by (induction before pre rule: blocks_ok.induct) auto

lemma block_entries_nonempty: "blocks_ok before bs \<Longrightarrow> bs \<noteq> [] \<Longrightarrow> block_entries bs \<noteq> []"
  by (cases bs rule: block_entries.cases) auto

lemma last_did_entries:
  "blocks_ok before bs \<Longrightarrow> bs \<noteq> [] \<Longrightarrow> last_did before bs = fst (last (block_entries bs))"
proof (induction before bs rule: last_did.induct)
  case (1 before)
  then show ?case by simp
next
  case (2 before d l bs)
  then show ?case
    using block_entries_nonempty [of d bs] by (cases bs) auto
next
  case (3 before mb run bs)
  then show ?case
    using block_entries_nonempty [of "fst (last run)" bs] by (cases bs) auto
qed

lemma consecutive_nth:
  assumes "consecutive run" and "sorted_wrt (<) (map fst run)" and "i < length run"
  shows "fst (run ! i) = fst (hd run) + of_nat i \<and> unat (fst (run ! i)) = unat (fst (hd run)) + i"
  using assms
proof (induction run arbitrary: i rule: consecutive.induct)
  case 1
  then show ?case by simp
next
  case (2 e)
  then show ?case by simp
next
  case (3 e e' es)
  show ?case
  proof (cases i)
    case 0
    then show ?thesis by simp
  next
    case (Suc j)
    have lt: "fst e < fst e'" and e': "fst e' = fst e + 1"
      using "3.prems" by auto
    then have "fst e + 1 \<noteq> 0"
      by (metis word_not_simps(1))
    then have u: "unat (fst e + 1) = Suc (unat (fst e))"
      by (metis add.commute unatSuc)
    have ih: "fst ((e' # es) ! j) = fst (hd (e' # es)) + of_nat j
        \<and> unat (fst ((e' # es) ! j)) = unat (fst (hd (e' # es))) + j"
      using "3.prems" Suc by (intro "3.IH") auto
    have a: "fst ((e' # es) ! j) = fst e + 1 + of_nat j"
      using ih [THEN conjunct1] e' by simp
    have b: "unat (fst ((e' # es) ! j)) = Suc (unat (fst e)) + j"
      using ih [THEN conjunct2] e' u by simp
    show ?thesis
      using a b by (simp add: Suc add.assoc)
  qed
qed


definition at_boundary :: "docid \<Rightarrow> block list \<Rightarrow> block list \<Rightarrow> FixedWidthChunkReader \<Rightarrow> bool" where
  "at_boundary fd pre post r =
     (pos r = block_bytes (last_did fd pre) post \<and> cur_did r = last_did fd pre)"

definition fixed_values :: "32 word \<Rightarrow> doclen_entries \<Rightarrow> byte list" where
  "fixed_values mb run = concat (map (\<lambda>e. pack_uint_in_bytes (snd e) (unat mb)) run)"

definition in_fixed ::
  "docid \<Rightarrow> block list \<Rightarrow> 32 word \<Rightarrow> doclen_entries \<Rightarrow> block list \<Rightarrow> nat
   \<Rightarrow> FixedWidthChunkReader \<Rightarrow> bool" where
  "in_fixed fd pre mb run post k r =
     (k < length run \<and> cur_did r = fst (run ! k)
      \<and> pos r = fixed_values mb (drop (Suc k) run) @ block_bytes (fst (last run)) post
      \<and> len_info r = of_nat (length run - Suc k) \<and> bytes_info r = mb
      \<and> did_before_block r = last_did fd pre
      \<and> pos_of_block r = block_bytes (last_did fd pre) (Fixed mb run # post))"

definition reader_inv :: "docid \<Rightarrow> block list \<Rightarrow> FixedWidthChunkReader \<Rightarrow> bool" where
  "reader_inv fd bs r =
     (ori_pos r = block_bytes fd bs \<and> first_did_in_chunk r = fd
      \<and> ((\<not> is_in_block r \<and> (\<exists>pre post. bs = pre @ post \<and> pre \<noteq> [] \<and> at_boundary fd pre post r))
         \<or> (is_in_block r
            \<and> (\<exists>pre mb run post k. bs = pre @ Fixed mb run # post
                  \<and> in_fixed fd pre mb run post k r))))"

text \<open>The length the reader holds is one of the lengths of the chunk.\<close>

definition len_inv :: "block list \<Rightarrow> FixedWidthChunkReader \<Rightarrow> bool" where
  "len_inv bs r = (cur_length r \<in> snd ` set (block_entries bs))"

lemma reader_inv_boundaryI:
  "ori_pos r = block_bytes fd bs \<Longrightarrow> first_did_in_chunk r = fd \<Longrightarrow> \<not> is_in_block r
   \<Longrightarrow> bs = pre @ post \<Longrightarrow> pre \<noteq> [] \<Longrightarrow> at_boundary fd pre post r \<Longrightarrow> reader_inv fd bs r"
  unfolding reader_inv_def by blast

lemma reader_inv_fixedI:
  "ori_pos r = block_bytes fd bs \<Longrightarrow> first_did_in_chunk r = fd \<Longrightarrow> is_in_block r
   \<Longrightarrow> bs = pre @ Fixed mb run # post \<Longrightarrow> in_fixed fd pre mb run post k r
   \<Longrightarrow> reader_inv fd bs r"
  unfolding reader_inv_def by blast

lemma length_fixed_values: "length (fixed_values mb run) = length run * unat mb"
  by (induction run) (auto simp: fixed_values_def length_pack_uint_in_bytes)

lemma fixed_values_Cons:
  "fixed_values mb (e # run) = pack_uint_in_bytes (snd e) (unat mb) @ fixed_values mb run"
  by (simp add: fixed_values_def)

lemma drop_fixed_values:
  "k \<le> length run \<Longrightarrow>
   drop (k * unat mb) (fixed_values mb run @ rest) = fixed_values mb (drop k run) @ rest"
proof (induction run arbitrary: k)
  case Nil
  then show ?case by (simp add: fixed_values_def)
next
  case (Cons e run)
  show ?case
  proof (cases k)
    case 0
    then show ?thesis by simp
  next
    case (Suc j)
    then have "j \<le> length run"
      using Cons.prems by simp
    from Cons.IH [OF this] show ?thesis
      by (simp add: Suc fixed_values_Cons length_pack_uint_in_bytes)
  qed
qed

lemma advance_fixed_values:
  "k \<le> length run \<Longrightarrow>
   advance (k * unat mb) (fixed_values mb run @ rest) = Inr (fixed_values mb (drop k run) @ rest)"
proof -
  assume k: "k \<le> length run"
  then have "k * unat mb \<le> length run * unat mb"
    by (rule mult_le_mono1)
  then have "\<not> length (fixed_values mb run @ rest) < k * unat mb"
    unfolding length_append length_fixed_values by linarith
  then show ?thesis
    using drop_fixed_values [OF k, of mb rest] by (simp only: advance_def if_False)
qed

lemma unpack_fixed_value:
  assumes "k < length run" and "\<forall>e\<in>set run. unat (snd e) < 256 ^ unat mb"
  shows "unpack_uint_in_bytes (unat mb) (fixed_values mb (drop k run) @ rest)
       = Inr (snd (run ! k), fixed_values mb (drop (Suc k) run) @ rest)"
proof -
  have d: "drop k run = run ! k # drop (Suc k) run"
    using assms(1) by (simp add: Cons_nth_drop_Suc)
  have "unat (snd (run ! k)) < 256 ^ unat mb"
    using assms by simp
  then show ?thesis
    by (simp add: d fixed_values_Cons unpack_pack_uint_in_bytes_exact)
qed

lemma run_last:
  assumes "run \<noteq> []" and "consecutive run" and "sorted_wrt (<) (map fst run)"
  shows "fst (last run) = fst (hd run) + of_nat (length run) - 1"
    and "unat (fst (last run)) = unat (fst (hd run)) + length run - 1"
proof -
  have "length run - 1 < length run"
    using assms(1) by simp
  note nth = consecutive_nth [OF assms(2,3) this]
  have a: "fst (last run) = fst (hd run) + of_nat (length run - 1)"
    using nth [THEN conjunct1] assms(1) by (simp add: last_conv_nth)
  have b: "unat (fst (last run)) = unat (fst (hd run)) + (length run - 1)"
    using nth [THEN conjunct2] assms(1) by (simp add: last_conv_nth)
  have "(of_nat (length run - 1) :: 32 word) = of_nat (length run) - 1"
    using assms(1) by (cases run) simp_all
  with a show "fst (last run) = fst (hd run) + of_nat (length run) - 1"
    by simp
  from b assms(1) show "unat (fst (last run)) = unat (fst (hd run)) + length run - 1"
    by (cases run) simp_all
qed

lemma run_index:
  fixes desired :: docid
  assumes "run \<noteq> []" and "consecutive run" and "sorted_wrt (<) (map fst run)"
    and "length run < 65536" and "unat mb < 256"
    and "fst (hd run) \<le> desired" and "desired \<le> fst (last run)"
  defines "k \<equiv> unat desired - unat (fst (hd run))"
  shows "k < length run" and "fst (run ! k) = desired"
    and "unat (mb * (desired - fst (hd run))) = k * unat mb"
    and "of_nat (length run) - (desired - fst (hd run) + 1) = (of_nat (length run - Suc k) :: 32 word)"
proof -
  have le: "unat (fst (hd run)) \<le> unat desired" "unat desired \<le> unat (fst (last run))"
    using assms(6,7) by (simp_all add: word_le_nat_alt)
  have last: "unat (fst (last run)) = unat (fst (hd run)) + length run - 1"
    by (rule run_last [OF assms(1-3)])
  have pos: "0 < length run"
    using assms(1) by simp
  show k: "k < length run"
    using le last pos unfolding k_def by linarith
  have "unat (desired - fst (hd run)) = k"
    unfolding k_def using assms(6) by (rule unat_sub)
  moreover have "of_nat (unat (desired - fst (hd run))) = desired - fst (hd run)"
    by simp
  ultimately have diff: "desired - fst (hd run) = of_nat k"
    by simp
  from consecutive_nth [OF assms(2,3) k, THEN conjunct1] have "fst (run ! k) = fst (hd run) + of_nat k" .
  then show "fst (run ! k) = desired"
    using diff by (metis add.commute diff_add_cancel)
  have uk: "unat (of_nat k :: 32 word) = k"
    using k assms(4) by (simp add: unat_of_nat)
  have "unat mb * k < 2 ^ 32"
  proof -
    have "unat mb * k \<le> 256 * 65536"
      using assms(4,5) k by (intro mult_le_mono) simp_all
    then show ?thesis by simp
  qed
  then have "unat mb * unat (of_nat k :: 32 word) < 2 ^ LENGTH(32)"
    using uk by simp
  then have "unat (mb * of_nat k) = unat mb * k"
    using uk by (simp only: unat_mult_lem [THEN iffD1])
  then show "unat (mb * (desired - fst (hd run))) = k * unat mb"
    by (simp add: diff mult.commute)
  have "(of_nat (length run - Suc k) :: 32 word) = of_nat (length run) - of_nat (Suc k)"
    using k by (simp add: of_nat_diff)
  then show "of_nat (length run) - (desired - fst (hd run) + 1) = (of_nat (length run - Suc k) :: 32 word)"
    by (simp add: diff)
qed

lemma jump_to_loop_normal:
  assumes "pos r = block_bytes b (Normal d l # post)" and "cur_did r = b"
    and "d - b \<noteq> SEPERATOR"
  defines "r1 \<equiv> r\<lparr>pos_of_block := pos r, is_in_block := False, cur_did := d,
                   pos := block_bytes d post, cur_length := l\<rparr>"
  shows "jump_to_loop desired r =
     (if d = desired then Inr (True, r1)
      else if desired < d then Inr (False, r1)
      else jump_to_loop desired r1)"
  using assms(1-3)
  by (subst jump_to_loop.simps)
     (simp add: r1_def pack_uint_nonempty unchecked_unpack_pack_uint Let_def)

lemma of_nat_32_eq_0_iff: "m < 65536 \<Longrightarrow> (of_nat m :: 32 word) = 0 \<longleftrightarrow> m = 0"
proof
  assume "m < 65536" and "(of_nat m :: 32 word) = 0"
  then have "unat (of_nat m :: 32 word) = 0"
    by simp
  moreover have "unat (of_nat m :: 32 word) = m"
    using \<open>m < 65536\<close> by (simp add: unat_of_nat)
  ultimately show "m = 0"
    by simp
qed simp


lemma jump_to_loop_fixed:
  fixes desired :: docid
  assumes pos: "pos r = block_bytes b (Fixed mb run # post)" and cur: "cur_did r = b"
    and run: "run \<noteq> []" "consecutive run" "sorted_wrt (<) (map fst run)"
      "length run < 65536" "unat mb < 256" "\<forall>e\<in>set run. unat (snd e) < 256 ^ unat mb"
  defines "rest \<equiv> block_bytes (fst (last run)) post"
  defines "r1 \<equiv> r\<lparr>pos_of_block := pos r, is_in_block := True, len_info := of_nat (length run),
                   bytes_info := mb, did_before_block := b, cur_did := fst (hd run),
                   pos := fixed_values mb run @ rest\<rparr>"
  defines "k \<equiv> unat desired - unat (fst (hd run))"
  shows "desired < fst (hd run) \<Longrightarrow>
           jump_to_loop desired r =
             Inr (False, r1\<lparr>pos := fixed_values mb (drop (Suc 0) run) @ rest,
                            cur_length := snd (run ! 0),
                            len_info := of_nat (length run - Suc 0)\<rparr>)"
    and "\<not> desired < fst (hd run) \<Longrightarrow> desired \<le> fst (last run) \<Longrightarrow>
           jump_to_loop desired r =
             Inr (True, r1\<lparr>pos := fixed_values mb (drop (Suc k) run) @ rest,
                           cur_length := snd (run ! k),
                           len_info := of_nat (length run - Suc k),
                           is_in_block := (length run - Suc k \<noteq> 0),
                           cur_did := desired\<rparr>)"
    and "\<not> desired < fst (hd run) \<Longrightarrow> \<not> desired \<le> fst (last run) \<Longrightarrow>
           jump_to_loop desired r =
             jump_to_loop desired (r1\<lparr>pos := rest, cur_did := fst (last run),
                                      is_in_block := False\<rparr>)"
proof -
  let ?n = "length run"
  have len: "unat (of_nat ?n :: 32 word) = ?n"
    using run(4) by (simp add: unat_of_nat)
  have bytes: "pos r = pack_uint SEPERATOR @ pack_uint (fst (hd run) - b)
      @ pack_uint_in_bytes (of_nat ?n) 2 @ pack_uint_in_bytes mb 1 @ fixed_values mb run @ rest"
    by (simp add: pos rest_def fixed_values_def)
  have last: "fst (hd run) + of_nat ?n - 1 = fst (last run)"
    using run_last(1) [OF run(1-3)] by simp
  note hdr = bytes r1_def pack_uint_nonempty unchecked_unpack_pack_uint Let_def
    unpack_pack_uint_in_bytes_exact len cur
  have first: "unpack_uint_in_bytes (unat mb) (fixed_values mb run @ rest)
      = Inr (snd (run ! 0), fixed_values mb (drop (Suc 0) run) @ rest)"
    using unpack_fixed_value [of 0 run mb rest] run(1,6) by simp
  have sub1: "(of_nat ?n :: 32 word) - 1 = of_nat (?n - Suc 0)"
    using run(1) by (cases run) simp_all
  show "jump_to_loop desired r =
      Inr (False, r1\<lparr>pos := fixed_values mb (drop (Suc 0) run) @ rest,
                     cur_length := snd (run ! 0), len_info := of_nat (?n - Suc 0)\<rparr>)"
    if "desired < fst (hd run)"
    using that run(4,5)
    by (subst jump_to_loop.simps) (simp add: hdr first sub1)
  show "jump_to_loop desired r =
      Inr (True, r1\<lparr>pos := fixed_values mb (drop (Suc k) run) @ rest,
                    cur_length := snd (run ! k), len_info := of_nat (?n - Suc k),
                    is_in_block := (?n - Suc k \<noteq> 0), cur_did := desired\<rparr>)"
    if a: "\<not> desired < fst (hd run)" and b: "desired \<le> fst (last run)"
  proof -
    have le: "fst (hd run) \<le> desired"
      using a by simp
    note idx = run_index [OF run(1-5) le b, folded k_def]
    have adv: "advance (unat (mb * (desired - fst (hd run)))) (fixed_values mb run @ rest)
        = Inr (fixed_values mb (drop k run) @ rest)"
      using idx(1) by (simp add: idx(3) advance_fixed_values)
    have val: "unpack_uint_in_bytes (unat mb) (fixed_values mb (drop k run) @ rest)
        = Inr (snd (run ! k), fixed_values mb (drop (Suc k) run) @ rest)"
      using idx(1) run(6) by (rule unpack_fixed_value)
    have z: "(of_nat (?n - Suc k) :: 32 word) = 0 \<longleftrightarrow> ?n - Suc k = 0"
      using run(4) by (intro of_nat_32_eq_0_iff) simp
    show ?thesis
      using a b run(4,5) last
      by (subst jump_to_loop.simps) (simp add: hdr adv val idx(4) z)
  qed
  show "jump_to_loop desired r =
      jump_to_loop desired (r1\<lparr>pos := rest, cur_did := fst (last run), is_in_block := False\<rparr>)"
    if a: "\<not> desired < fst (hd run)" and b: "\<not> desired \<le> fst (last run)"
  proof -
    have "unat mb * unat (of_nat ?n :: 32 word) < 2 ^ LENGTH(32)"
    proof -
      have "unat mb * ?n \<le> 256 * 65536"
        using run(4,5) by (intro mult_le_mono) simp_all
      then show ?thesis
        by (simp add: len)
    qed
    then have "unat (mb * of_nat ?n) = ?n * unat mb"
      by (simp only: unat_mult_lem [THEN iffD1] len mult.commute)
    then have adv: "advance (unat (mb * of_nat ?n)) (fixed_values mb run @ rest) = Inr rest"
      using advance_fixed_values [of ?n run mb rest] by (simp add: fixed_values_def)
    have "fst (hd run) + (of_nat ?n - 1) = fst (last run)"
      using last by (simp add: algebra_simps)
    then show ?thesis
      using a b run(4,5) last
      by (subst jump_to_loop.simps) (simp add: hdr adv)
  qed
qed

text \<open>
  What \<open>jump_to(desired)\<close> is to give on a chunk whose docids are \<open>D\<close>: when it returns
  true the reader is on \<open>desired\<close>, which is in \<open>D\<close>; when it returns false \<open>desired\<close> is
  not in \<open>D\<close> and, if \<open>D\<close> has a docid above \<open>desired\<close>, the reader is on the smallest one;
  if every docid of \<open>D\<close> is below \<open>desired\<close>, the reader is on or after the largest one.
\<close>

definition jump_result :: "docid set \<Rightarrow> docid \<Rightarrow> bool \<Rightarrow> FixedWidthChunkReader \<Rightarrow> bool" where
  "jump_result D desired b r' =
     ((b \<longrightarrow> cur_did r' = desired \<and> desired \<in> D)
      \<and> (\<not> b \<longrightarrow> desired \<notin> D
           \<and> ((\<exists>x\<in>D. desired < x) \<longrightarrow>
                cur_did r' \<in> D \<and> desired < cur_did r' \<and> (\<forall>x\<in>D. desired < x \<longrightarrow> cur_did r' \<le> x))
           \<and> ((\<forall>x\<in>D. x < desired) \<longrightarrow> (\<forall>x\<in>D. x \<le> cur_did r'))))"

lemma jump_result_found:
  "desired \<in> D \<Longrightarrow> cur_did r' = desired \<Longrightarrow> jump_result D desired True r'"
  by (simp add: jump_result_def)

lemma jump_result_next:
  assumes "D = A \<union> B" and "\<forall>x\<in>A. x < desired" and "\<forall>x\<in>B. c \<le> x" and "c \<in> B"
    and "desired < c" and "cur_did r' = c"
  shows "jump_result D desired False r'"
proof -
  have 1: "desired \<notin> D"
    using assms(1-3,5) by (auto dest: leD)
  have 2: "\<forall>x\<in>D. desired < x \<longrightarrow> c \<le> x"
    using assms(1-3) by (auto dest: less_asym)
  have 3: "c \<in> D" "\<not> (\<forall>x\<in>D. x < desired)"
    using assms(1,4,5) by (auto intro!: bexI [of _ c] dest: less_asym)
  show ?thesis
    unfolding jump_result_def using 1 2 3 assms(5,6) by blast
qed

lemma jump_result_none:
  "\<forall>x\<in>D. x < desired \<Longrightarrow> \<forall>x\<in>D. x \<le> cur_did r' \<Longrightarrow> jump_result D desired False r'"
  unfolding jump_result_def by (auto dest: less_asym)

lemma sorted_hd_le:
  "sorted_wrt (<) (map fst es) \<Longrightarrow> e \<in> set es \<Longrightarrow> fst (hd es) \<le> fst (e :: docid \<times> termcount)"
  by (cases es) (auto simp: less_imp_le)

lemma sorted_le_last:
  "sorted_wrt (<) (map fst es) \<Longrightarrow> e \<in> set es \<Longrightarrow> fst (e :: docid \<times> termcount) \<le> fst (last es)"
proof (induction es)
  case Nil
  then show ?case by simp
next
  case (Cons a es)
  then show ?case
    by (cases "es = []") (auto simp: less_imp_le intro: order_trans [OF less_imp_le])
qed


lemma entries_below_last_did:
  assumes ok: "blocks_ok fd (pre @ post)" and srt: "sorted_wrt (<) (map fst (block_entries (pre @ post)))"
    and ne: "pre \<noteq> []"
  shows "\<forall>x\<in>fst ` set (block_entries pre). x \<le> last_did fd pre"
proof -
  have okp: "blocks_ok fd pre"
    using ok by (simp add: blocks_ok_append)
  have sp: "sorted_wrt (<) (map fst (block_entries pre))"
    using srt by (simp add: block_entries_append sorted_wrt_append)
  have "last_did fd pre = fst (last (block_entries pre))"
    using okp ne by (rule last_did_entries)
  then show ?thesis
    using sorted_le_last [OF sp] by auto
qed

lemma jump_to_loop_spec:
  assumes ok: "blocks_ok fd bs" and srt: "sorted_wrt (<) (map fst (block_entries bs))"
    and ori: "ori_pos r = block_bytes fd bs" "first_did_in_chunk r = fd"
    and split: "bs = pre @ post" and bnd: "at_boundary fd pre post r"
    and below: "\<forall>x\<in>fst ` set (block_entries pre). x < desired"
    and blk: "post = [] \<longrightarrow> \<not> is_in_block r \<and> pre \<noteq> []"
    and len: "len_inv bs r"
  shows "\<exists>b r'. jump_to_loop desired r = Inr (b, r') \<and> reader_inv fd bs r' \<and> len_inv bs r'
           \<and> is_at_end r' = is_at_end r \<and> jump_result (fst ` set (block_entries bs)) desired b r'"
  using ori split bnd below blk len
proof (induction post arbitrary: pre r)
  case Nil
  then have "jump_to_loop desired r = Inr (False, r)"
    by (subst jump_to_loop.simps) (simp add: at_boundary_def)
  moreover have "reader_inv fd bs r"
    using Nil by (intro reader_inv_boundaryI [of r fd bs pre "[]"]) auto
  moreover have "jump_result (fst ` set (block_entries bs)) desired False r"
  proof (rule jump_result_none)
    show "\<forall>x\<in>fst ` set (block_entries bs). x < desired"
      using Nil by simp
    have "\<forall>x\<in>fst ` set (block_entries pre). x \<le> last_did fd pre"
      using ok srt Nil by (intro entries_below_last_did [of fd pre "[]"]) simp_all
    then show "\<forall>x\<in>fst ` set (block_entries bs). x \<le> cur_did r"
      using Nil by (simp add: at_boundary_def)
  qed
  ultimately show ?case
    using Nil.prems(7) by blast
next
  case (Cons blk post)
  let ?b = "last_did fd pre"
  let ?D = "fst ` set (block_entries bs)"
  have pos: "pos r = block_bytes ?b (blk # post)" and cur: "cur_did r = ?b"
    using Cons.prems(4) by (simp_all add: at_boundary_def)
  have okb: "blocks_ok ?b (blk # post)"
    using ok Cons.prems(3) by (simp add: blocks_ok_append)
  have D: "?D = fst ` set (block_entries pre) \<union> fst ` set (block_entries (blk # post))"
    by (simp add: Cons.prems(3) block_entries_append image_Un)
  have srt_post: "sorted_wrt (<) (map fst (block_entries (blk # post)))"
    using srt by (simp add: Cons.prems(3) block_entries_append sorted_wrt_append)
  have split': "bs = (pre @ [blk]) @ post"
    by (simp add: Cons.prems(3))
  show ?case
  proof (cases blk)
    case (Normal d l)
    define r1 where "r1 = r\<lparr>pos_of_block := pos r, is_in_block := False, cur_did := d,
        pos := block_bytes d post, cur_length := l\<rparr>"
    have step: "jump_to_loop desired r =
        (if d = desired then Inr (True, r1)
         else if desired < d then Inr (False, r1)
         else jump_to_loop desired r1)"
      unfolding r1_def
    proof (rule jump_to_loop_normal)
      show "pos r = block_bytes ?b (Normal d l # post)"
        by (simp add: pos Normal)
      show "cur_did r = ?b"
        by (rule cur)
      show "d - ?b \<noteq> SEPERATOR"
        using okb by (simp add: Normal)
    qed
    have bnd1: "at_boundary fd (pre @ [blk]) post r1"
      by (simp add: at_boundary_def r1_def last_did_append Normal)
    have ae1: "is_at_end r1 = is_at_end r"
      by (simp add: r1_def)
    have len1: "len_inv bs r1"
      by (simp add: len_inv_def r1_def Cons.prems(3) block_entries_append Normal image_Un)
    have inv1: "reader_inv fd bs r1"
      using Cons.prems(1,2) bnd1
      by (intro reader_inv_boundaryI [of r1 fd bs "pre @ [blk]" post])
         (simp_all add: r1_def split')
    have mem: "d \<in> fst ` set (block_entries (blk # post))"
      by (simp add: Normal)
    have least: "\<forall>x\<in>fst ` set (block_entries (blk # post)). d \<le> x"
      using sorted_hd_le [OF srt_post] by (auto simp: Normal)
    consider (eq) "d = desired" | (gt) "desired < d" | (lt) "d < desired"
      by (metis linorder_neqE)
    then show ?thesis
    proof cases
      case eq
      have "jump_result ?D desired True r1"
        using mem by (intro jump_result_found) (simp_all add: D eq r1_def)
      then show ?thesis
        using step eq inv1 ae1 len1 by auto
    next
      case gt
      have "jump_result ?D desired False r1"
        using D Cons.prems(5) least mem gt
        by (rule jump_result_next) (simp add: r1_def)
      then show ?thesis
        using step gt inv1 ae1 len1 by auto
    next
      case lt
      have "\<exists>b r'. jump_to_loop desired r1 = Inr (b, r') \<and> reader_inv fd bs r' \<and> len_inv bs r'
          \<and> is_at_end r' = is_at_end r1 \<and> jump_result ?D desired b r'"
        using Cons.prems(1,2,5) lt bnd1 len1
        by (intro Cons.IH [of r1 "pre @ [blk]"])
           (auto simp: r1_def split' block_entries_append Normal)
      then show ?thesis
        using step lt ae1 by (auto dest: less_asym)
    qed
  next
    case (Fixed mb run)
    from okb have run: "run \<noteq> []" "consecutive run" "length run < 65536" "unat mb < 256"
      "\<forall>e\<in>set run. unat (snd e) < 256 ^ unat mb"
      by (simp_all add: Fixed)
    have srt_run: "sorted_wrt (<) (map fst run)"
      using srt_post by (simp add: Fixed sorted_wrt_append)
    define rest where "rest = block_bytes (fst (last run)) post"
    define r1 where "r1 = r\<lparr>pos_of_block := pos r, is_in_block := True,
        len_info := of_nat (length run), bytes_info := mb, did_before_block := ?b,
        cur_did := fst (hd run), pos := fixed_values mb run @ rest\<rparr>"
    define k where "k = unat desired - unat (fst (hd run))"
    note step = jump_to_loop_fixed [of r ?b mb run post desired, OF _ cur run(1,2) srt_run run(3-5),
        folded rest_def, folded r1_def, folded k_def]
    have pos': "pos r = block_bytes ?b (Fixed mb run # post)"
      using pos by (simp add: Fixed)
    have hd_mem: "fst (hd run) \<in> fst ` set (block_entries (blk # post))"
      using run(1) by (simp add: Fixed image_Un)
    have least: "\<forall>x\<in>fst ` set (block_entries (blk # post)). fst (hd run) \<le> x"
      using sorted_hd_le [OF srt_post] run(1) by (auto simp: Fixed)
    have bnd_after: "at_boundary fd (pre @ [blk]) post r'"
      if "pos r' = rest" "cur_did r' = fst (last run)" for r'
      using that by (simp add: at_boundary_def last_did_append Fixed rest_def)
    consider (before) "desired < fst (hd run)"
      | (inside) "\<not> desired < fst (hd run)" "desired \<le> fst (last run)"
      | (after) "\<not> desired < fst (hd run)" "\<not> desired \<le> fst (last run)"
      by blast
    then show ?thesis
    proof cases
      case before
      define r' where "r' = r1\<lparr>pos := fixed_values mb (drop (Suc 0) run) @ rest,
          cur_length := snd (run ! 0), len_info := of_nat (length run - Suc 0)\<rparr>"
      have eq: "jump_to_loop desired r = Inr (False, r')"
        unfolding r'_def using pos' before by (rule step(1))
      have "in_fixed fd pre mb run post 0 r'"
        using run(1) by (simp add: in_fixed_def r'_def r1_def rest_def hd_conv_nth pos')
      then have "reader_inv fd bs r'"
        using Cons.prems(1,2)
        by (intro reader_inv_fixedI [of r' fd bs pre mb run post 0])
           (simp_all add: r'_def r1_def Cons.prems(3) Fixed)
      moreover have "jump_result ?D desired False r'"
        using D Cons.prems(5) least hd_mem before
        by (rule jump_result_next) (simp add: r'_def r1_def)
      moreover have "len_inv bs r'"
        using run(1)
        by (simp add: len_inv_def r'_def r1_def Cons.prems(3) block_entries_append Fixed image_Un)
      moreover have "is_at_end r' = is_at_end r"
        by (simp add: r'_def r1_def)
      ultimately show ?thesis
        using eq by blast
    next
      case inside
      define r' where "r' = r1\<lparr>pos := fixed_values mb (drop (Suc k) run) @ rest,
          cur_length := snd (run ! k), len_info := of_nat (length run - Suc k),
          is_in_block := (length run - Suc k \<noteq> 0), cur_did := desired\<rparr>"
      have eq: "jump_to_loop desired r = Inr (True, r')"
        unfolding r'_def using pos' inside by (rule step(2))
      have le: "fst (hd run) \<le> desired"
        using inside(1) by simp
      note idx = run_index(1,2) [OF run(1,2) srt_run run(3,4) le inside(2), folded k_def]
      have "desired \<in> fst ` set run"
        using idx by (metis image_eqI nth_mem)
      then have "jump_result ?D desired True r'"
        by (intro jump_result_found) (simp_all add: D Fixed r'_def image_Un)
      moreover have "len_inv bs r'"
        using idx(1)
        by (simp add: len_inv_def r'_def r1_def Cons.prems(3) block_entries_append Fixed image_Un)
      moreover have "reader_inv fd bs r'"
      proof (cases "length run - Suc k = 0")
        case True
        then have "drop (Suc k) run = []" and "k = length run - 1"
          using idx(1) by simp_all
        then have "pos r' = rest" and "cur_did r' = fst (last run)"
          using idx(2) run(1) by (simp_all add: r'_def fixed_values_def last_conv_nth)
        then have "at_boundary fd (pre @ [blk]) post r'"
          by (rule bnd_after)
        then show ?thesis
          using Cons.prems(1,2) True
          by (intro reader_inv_boundaryI [of r' fd bs "pre @ [blk]" post])
             (simp_all add: r'_def r1_def split')
      next
        case False
        have "in_fixed fd pre mb run post k r'"
          using idx by (simp add: in_fixed_def r'_def r1_def rest_def pos')
        then show ?thesis
          using Cons.prems(1,2) False
          by (intro reader_inv_fixedI [of r' fd bs pre mb run post k])
             (simp_all add: r'_def r1_def Cons.prems(3) Fixed)
      qed
      moreover have "is_at_end r' = is_at_end r"
        by (simp add: r'_def r1_def)
      ultimately show ?thesis
        using eq by blast
    next
      case after
      define r' where "r' = r1\<lparr>pos := rest, cur_did := fst (last run), is_in_block := False\<rparr>"
      have eq: "jump_to_loop desired r = jump_to_loop desired r'"
        unfolding r'_def using pos' after by (rule step(3))
      have lt: "fst (last run) < desired"
        using after(2) by simp
      have "\<forall>x\<in>fst ` set run. x < desired"
        using sorted_le_last [OF srt_run] lt by (auto intro: le_less_trans)
      then have below': "\<forall>x\<in>fst ` set (block_entries (pre @ [blk])). x < desired"
        using Cons.prems(5) by (auto simp: block_entries_append Fixed)
      have "at_boundary fd (pre @ [blk]) post r'"
        by (rule bnd_after) (simp_all add: r'_def)
      moreover have "len_inv bs r'"
        using Cons.prems(7) by (simp add: len_inv_def r'_def r1_def)
      ultimately have "\<exists>b r''. jump_to_loop desired r' = Inr (b, r'') \<and> reader_inv fd bs r''
          \<and> len_inv bs r'' \<and> is_at_end r'' = is_at_end r' \<and> jump_result ?D desired b r''"
        using Cons.prems(1,2) below'
        by (intro Cons.IH [of r' "pre @ [blk]"]) (simp_all add: r'_def r1_def split')
      moreover have "is_at_end r' = is_at_end r"
        by (simp add: r'_def r1_def)
      ultimately show ?thesis
        using eq by simp
    qed
  qed
qed

lemma last_did_in_entries:
  assumes "blocks_ok fd pre" and "pre \<noteq> []"
  shows "last_did fd pre \<in> fst ` set (block_entries pre)"
proof -
  have "block_entries pre \<noteq> []"
    using assms by (rule block_entries_nonempty)
  then show ?thesis
    using last_did_entries [OF assms] by (simp add: last_in_set)
qed

lemma reader_inv_cur_did:
  assumes ok: "blocks_ok fd bs" and inv: "reader_inv fd bs r"
  shows "cur_did r \<in> fst ` set (block_entries bs)"
proof -
  consider (boundary) pre post where "bs = pre @ post" "pre \<noteq> []" "at_boundary fd pre post r"
    | (fixed) pre mb run post k where "bs = pre @ Fixed mb run # post"
        "in_fixed fd pre mb run post k r"
    using inv unfolding reader_inv_def by blast
  then show ?thesis
  proof cases
    case boundary
    have "blocks_ok fd pre"
      using ok boundary(1) by (simp add: blocks_ok_append)
    then have "last_did fd pre \<in> fst ` set (block_entries pre)"
      using boundary(2) by (rule last_did_in_entries)
    then show ?thesis
      using boundary by (auto simp: at_boundary_def block_entries_append)
  next
    case fixed
    then have "k < length run" "cur_did r = fst (run ! k)"
      by (simp_all add: in_fixed_def)
    then have "cur_did r \<in> fst ` set run"
      by (metis imageI nth_mem)
    then show ?thesis
      using fixed(1) by (auto simp: block_entries_append)
  qed
qed

lemma jump_to_spec:
  assumes ok: "blocks_ok fd bs" and srt: "sorted_wrt (<) (map fst (block_entries bs))"
    and inv: "reader_inv fd bs r" and len: "len_inv bs r"
  shows "\<exists>b r'. jump_to desired r = Inr (b, r') \<and> reader_inv fd bs r' \<and> len_inv bs r'
           \<and> is_at_end r' = is_at_end r \<and> jump_result (fst ` set (block_entries bs)) desired b r'"
proof (cases "cur_did r = desired")
  case True
  then have "jump_to desired r = Inr (True, r)"
    by (simp add: jump_to_def)
  moreover have "jump_result (fst ` set (block_entries bs)) desired True r"
    using reader_inv_cur_did [OF ok inv] True by (intro jump_result_found) simp_all
  ultimately show ?thesis
    using inv len by blast
next
  case ne: False
  have ori: "ori_pos r = block_bytes fd bs" "first_did_in_chunk r = fd"
    using inv by (simp_all add: reader_inv_def)
  let ?start = "r\<lparr>pos := ori_pos r, cur_did := first_did_in_chunk r\<rparr>"
  have bs_ne: "bs \<noteq> []"
    using inv unfolding reader_inv_def by auto
  have start: "\<exists>b r'. jump_to_loop desired ?start = Inr (b, r') \<and> reader_inv fd bs r'
           \<and> len_inv bs r' \<and> is_at_end r' = is_at_end ?start \<and> jump_result (fst ` set (block_entries bs)) desired b r'"
  proof (rule jump_to_loop_spec [OF ok srt])
    show "bs = [] @ bs"
      by simp
    show "at_boundary fd [] bs ?start"
      by (simp add: at_boundary_def ori)
    show "bs = [] \<longrightarrow> \<not> is_in_block ?start \<and> [] \<noteq> ([] :: block list)"
      using bs_ne by simp
    show "len_inv bs ?start"
      using len by (simp add: len_inv_def)
  qed (simp_all add: ori)
  consider (boundary) pre post where "\<not> is_in_block r" "bs = pre @ post" "pre \<noteq> []"
      "at_boundary fd pre post r"
    | (fixed) pre mb run post k where "is_in_block r" "bs = pre @ Fixed mb run # post"
        "in_fixed fd pre mb run post k r"
    using inv unfolding reader_inv_def by blast
  then show ?thesis
  proof cases
    case boundary
    show ?thesis
    proof (cases "desired < cur_did r")
      case True
      then have "jump_to desired r = jump_to_loop desired ?start"
        using ne boundary(1) by (simp add: jump_to_def)
      then show ?thesis
        using start by simp
    next
      case False
      then have lt: "cur_did r < desired"
        using ne by simp
      have "jump_to desired r = jump_to_loop desired r"
        using ne boundary(1) False by (simp add: jump_to_def)
      moreover have "\<exists>b r'. jump_to_loop desired r = Inr (b, r') \<and> reader_inv fd bs r'
           \<and> len_inv bs r' \<and> is_at_end r' = is_at_end r \<and> jump_result (fst ` set (block_entries bs)) desired b r'"
      proof (rule jump_to_loop_spec [OF ok srt ori boundary(2) boundary(4)])
        have "\<forall>x\<in>fst ` set (block_entries pre). x \<le> last_did fd pre"
          using ok srt boundary(3) unfolding boundary(2) by (rule entries_below_last_did)
        moreover have "last_did fd pre < desired"
          using lt boundary(4) by (simp add: at_boundary_def)
        ultimately show "\<forall>x\<in>fst ` set (block_entries pre). x < desired"
          by (meson order_le_less_trans)
        show "post = [] \<longrightarrow> \<not> is_in_block r \<and> pre \<noteq> []"
          using boundary by simp
      qed (rule len)
      ultimately show ?thesis
        by simp
    qed
  next
    case fixed
    have dbb: "did_before_block r = last_did fd pre"
      and pob: "pos_of_block r = block_bytes (last_did fd pre) (Fixed mb run # post)"
      using fixed(3) by (simp_all add: in_fixed_def)
    show ?thesis
    proof (cases "desired \<le> did_before_block r")
      case True
      then have "jump_to desired r = jump_to_loop desired ?start"
        using ne fixed(1) by (simp add: jump_to_def)
      then show ?thesis
        using start by simp
    next
      case False
      then have lt: "last_did fd pre < desired"
        using dbb by simp
      let ?rewound = "r\<lparr>pos := pos_of_block r, cur_did := did_before_block r\<rparr>"
      have "jump_to desired r = jump_to_loop desired ?rewound"
        using ne fixed(1) False by (simp add: jump_to_def)
      moreover have "\<exists>b r'. jump_to_loop desired ?rewound = Inr (b, r') \<and> reader_inv fd bs r'
           \<and> len_inv bs r' \<and> is_at_end r' = is_at_end ?rewound \<and> jump_result (fst ` set (block_entries bs)) desired b r'"
      proof (rule jump_to_loop_spec [OF ok srt _ _ fixed(2)])
        show "ori_pos ?rewound = block_bytes fd bs" "first_did_in_chunk ?rewound = fd"
          using ori by simp_all
        show "at_boundary fd pre (Fixed mb run # post) ?rewound"
          by (simp add: at_boundary_def dbb pob)
        show "\<forall>x\<in>fst ` set (block_entries pre). x < desired"
        proof (cases "pre = []")
          case True
          then show ?thesis by simp
        next
          case False
          have "\<forall>x\<in>fst ` set (block_entries pre). x \<le> last_did fd pre"
            using ok srt False unfolding fixed(2) by (rule entries_below_last_did)
          then show ?thesis
            using lt by (meson order_le_less_trans)
        qed
        show "Fixed mb run # post = [] \<longrightarrow> \<not> is_in_block ?rewound \<and> pre \<noteq> []"
          by simp
        show "len_inv bs ?rewound"
          using len by (simp add: len_inv_def)
      qed
      ultimately show ?thesis
        by simp
    qed
  qed
qed

lemma reader_inv_is_at_end [simp]:
  "reader_inv fd bs (r\<lparr>is_at_end := b\<rparr>) = reader_inv fd bs r"
  by (simp add: reader_inv_def at_boundary_def in_fixed_def)

lemma block_bytes_eq_Nil: "block_bytes b post = [] \<longleftrightarrow> post = []"
  by (cases post rule: block_entries.cases) (simp_all add: pack_uint_nonempty)

lemma consecutive_Suc:
  "consecutive run \<Longrightarrow> Suc k < length run \<Longrightarrow> fst (run ! Suc k) = fst (run ! k) + 1"
proof (induction run arbitrary: k rule: consecutive.induct)
  case (3 e e' es)
  then show ?case
    by (cases k) simp_all
qed simp_all

lemma fwcr_next_normal:
  assumes "pos r = block_bytes b (Normal d l # post)" and "cur_did r = b"
    and "d - b \<noteq> SEPERATOR" and "\<not> is_at_end r" and "\<not> (is_in_block r \<and> len_info r \<noteq> 0)"
  shows "fwcr_next r = Inr (True, r\<lparr>pos_of_block := pos r, is_in_block := False, cur_did := d,
                   pos := block_bytes d post, cur_length := l\<rparr>)"
proof -
  have c: "(is_in_block r \<and> len_info r \<noteq> 0) = False"
    using assms(5) by blast
  show ?thesis
    unfolding fwcr_next_def c using assms(1-4)
    by (simp add: pack_uint_nonempty unchecked_unpack_pack_uint Let_def)
qed

lemma fwcr_next_fixed:
  assumes pos: "pos r = block_bytes b (Fixed mb run # post)" and cur: "cur_did r = b"
    and run: "run \<noteq> []" "length run < 65536" "unat mb < 256"
      "\<forall>e\<in>set run. unat (snd e) < 256 ^ unat mb"
    and st: "\<not> is_at_end r" "\<not> (is_in_block r \<and> len_info r \<noteq> 0)"
  shows "fwcr_next r = Inr (True, r\<lparr>pos_of_block := pos r,
                   is_in_block := (length run - Suc 0 \<noteq> 0),
                   len_info := of_nat (length run - Suc 0),
                   bytes_info := mb, did_before_block := b, cur_did := fst (hd run),
                   pos := fixed_values mb (drop (Suc 0) run) @ block_bytes (fst (last run)) post,
                   cur_length := snd (run ! 0)\<rparr>)"
proof -
  let ?n = "length run"
  let ?rest = "block_bytes (fst (last run)) post"
  have len: "unat (of_nat ?n :: 32 word) = ?n"
    using run(2) by (simp add: unat_of_nat)
  have bytes: "pos r = pack_uint SEPERATOR @ pack_uint (fst (hd run) - b)
      @ pack_uint_in_bytes (of_nat ?n) 2 @ pack_uint_in_bytes mb 1 @ fixed_values mb run @ ?rest"
    by (simp add: pos fixed_values_def)
  have first: "unpack_uint_in_bytes (unat mb) (fixed_values mb run @ ?rest)
      = Inr (snd (run ! 0), fixed_values mb (drop (Suc 0) run) @ ?rest)"
    using unpack_fixed_value [of 0 run mb ?rest] run(1,4) by simp
  define li where "li = (of_nat (?n - Suc 0) :: 32 word)"
  have sub1: "(of_nat ?n :: 32 word) - 1 = li"
    unfolding li_def using run(1) by (cases run) simp_all
  have z: "li \<noteq> 0 \<longleftrightarrow> ?n - Suc 0 \<noteq> 0"
    unfolding li_def using run(2) of_nat_32_eq_0_iff [of "?n - Suc 0"] by simp
  have c: "(is_in_block r \<and> len_info r \<noteq> 0) = False"
    using st(2) by blast
  have "fwcr_next r = Inr (True, r\<lparr>pos_of_block := pos r,
                   is_in_block := (li \<noteq> 0), len_info := li,
                   bytes_info := mb, did_before_block := b, cur_did := fst (hd run),
                   pos := fixed_values mb (drop (Suc 0) run) @ ?rest,
                   cur_length := snd (run ! 0)\<rparr>)"
  proof (cases "li = 0")
    case True
    show ?thesis
      unfolding fwcr_next_def c using st(1) run(2,3)
      by (simp add: bytes pack_uint_nonempty unchecked_unpack_pack_uint Let_def
          unpack_pack_uint_in_bytes_exact len cur first sub1 True)
  next
    case False
    show ?thesis
      unfolding fwcr_next_def c using st(1) run(2,3)
      by (simp add: bytes pack_uint_nonempty unchecked_unpack_pack_uint Let_def
          unpack_pack_uint_in_bytes_exact len cur first sub1 False)
  qed
  then show ?thesis
    unfolding z unfolding li_def .
qed

lemma fwcr_next_in_fixed:
  assumes inf: "in_fixed fd pre mb run post k r" and more: "Suc k < length run"
    and run: "consecutive run" "length run < 65536"
      "\<forall>e\<in>set run. unat (snd e) < 256 ^ unat mb"
    and st: "\<not> is_at_end r" "is_in_block r" "pos r \<noteq> []"
  shows "fwcr_next r = Inr (True, r\<lparr>cur_did := fst (run ! Suc k),
                   len_info := of_nat (length run - Suc (Suc k)),
                   is_in_block := (length run - Suc (Suc k) \<noteq> 0),
                   pos := fixed_values mb (drop (Suc (Suc k)) run)
                            @ block_bytes (fst (last run)) post,
                   cur_length := snd (run ! Suc k)\<rparr>)"
proof -
  let ?n = "length run"
  let ?rest = "block_bytes (fst (last run)) post"
  define li where "li = (of_nat (?n - Suc (Suc k)) :: 32 word)"
  have cur: "cur_did r = fst (run ! k)"
    and pos: "pos r = fixed_values mb (drop (Suc k) run) @ ?rest"
    and len: "len_info r = of_nat (?n - Suc k)" and bi: "bytes_info r = mb"
    using inf by (simp_all add: in_fixed_def)
  have nz: "len_info r \<noteq> 0"
    unfolding len using run(2) more of_nat_32_eq_0_iff [of "?n - Suc k"] by simp
  have sub1: "len_info r - 1 = li"
  proof -
    have "?n - Suc k = Suc (?n - Suc (Suc k))"
      using more by simp
    then show ?thesis
      unfolding len li_def by simp
  qed
  have z: "li \<noteq> 0 \<longleftrightarrow> ?n - Suc (Suc k) \<noteq> 0"
    unfolding li_def using run(2) of_nat_32_eq_0_iff [of "?n - Suc (Suc k)"] by simp
  have did: "cur_did r + 1 = fst (run ! Suc k)"
    using consecutive_Suc [OF run(1) more] cur by simp
  have val: "unpack_uint_in_bytes (unat mb) (fixed_values mb (drop (Suc k) run) @ ?rest)
      = Inr (snd (run ! Suc k), fixed_values mb (drop (Suc (Suc k)) run) @ ?rest)"
    using more run(3) by (rule unpack_fixed_value)
  have c: "(is_in_block r \<and> len_info r \<noteq> 0) = True"
    using st(2) nz by simp
  have pne: "(pos r = []) = False"
    using st(3) by simp
  have "fwcr_next r = Inr (True, r\<lparr>cur_did := fst (run ! Suc k), len_info := li,
                   is_in_block := (li \<noteq> 0),
                   pos := fixed_values mb (drop (Suc (Suc k)) run) @ ?rest,
                   cur_length := snd (run ! Suc k)\<rparr>)"
  proof (cases "li = 0")
    case True
    show ?thesis
      unfolding fwcr_next_def c pne using st(1)
      by (simp add: Let_def sub1 True bi did) (simp add: pos val)
  next
    case False
    show ?thesis
      unfolding fwcr_next_def c pne using st(1,2)
      by (simp add: Let_def sub1 False bi did) (simp add: pos val)
  qed
  then show ?thesis
    unfolding z unfolding li_def .
qed

lemma last_did_snoc_Normal: "last_did fd (pre @ [Normal d l]) = d"
  by (simp add: last_did_append)

lemma last_did_snoc_Fixed: "last_did fd (pre @ [Fixed mb run]) = fst (last run)"
  by (simp add: last_did_append)

lemma fwcr_next_boundary:
  assumes ok: "blocks_ok fd bs"
    and ori: "ori_pos r = block_bytes fd bs" "first_did_in_chunk r = fd"
    and split: "bs = pre @ post" and bnd: "at_boundary fd pre post r"
    and st: "\<not> is_at_end r" "\<not> (is_in_block r \<and> len_info r \<noteq> 0)" "post \<noteq> []"
  shows "\<exists>r'. fwcr_next r = Inr (True, r') \<and> reader_inv fd bs r' \<and> len_inv bs r'
           \<and> \<not> is_at_end r'"
proof -
  let ?b = "last_did fd pre"
  obtain blk post' where post: "post = blk # post'"
    using st(3) by (cases post) auto
  have pos: "pos r = block_bytes ?b (blk # post')" and cur: "cur_did r = ?b"
    using bnd by (simp_all add: at_boundary_def post)
  have okb: "blocks_ok ?b (blk # post')"
    using ok by (simp add: split post blocks_ok_append)
  show ?thesis
  proof (cases blk)
    case (Normal d l)
    let ?r' = "r\<lparr>pos_of_block := pos r, is_in_block := False, cur_did := d,
                   pos := block_bytes d post', cur_length := l\<rparr>"
    have "fwcr_next r = Inr (True, ?r')"
    proof (rule fwcr_next_normal)
      show "pos r = block_bytes ?b (Normal d l # post')"
        by (simp add: pos Normal)
      show "d - ?b \<noteq> SEPERATOR"
        using okb by (simp add: Normal)
    qed (simp_all add: cur st)
    moreover have "reader_inv fd bs ?r'"
    proof (rule reader_inv_boundaryI)
      show "bs = (pre @ [Normal d l]) @ post'"
        by (simp add: split post Normal)
      show "at_boundary fd (pre @ [Normal d l]) post' ?r'"
        by (simp add: at_boundary_def last_did_snoc_Normal)
    qed (simp_all add: ori)
    moreover have "len_inv bs ?r'"
      by (simp add: len_inv_def split post Normal block_entries_append image_Un)
    moreover have "\<not> is_at_end ?r'"
      using st(1) by simp
    ultimately show ?thesis
      by blast
  next
    case (Fixed mb run)
    have run: "run \<noteq> []" "consecutive run" "length run < 65536" "unat mb < 256"
        "\<forall>e\<in>set run. unat (snd e) < 256 ^ unat mb"
      using okb by (simp_all add: Fixed)
    let ?r' = "r\<lparr>pos_of_block := pos r,
                   is_in_block := (length run - Suc 0 \<noteq> 0),
                   len_info := of_nat (length run - Suc 0),
                   bytes_info := mb, did_before_block := ?b, cur_did := fst (hd run),
                   pos := fixed_values mb (drop (Suc 0) run) @ block_bytes (fst (last run)) post',
                   cur_length := snd (run ! 0)\<rparr>"
    have nx: "fwcr_next r = Inr (True, ?r')"
    proof (rule fwcr_next_fixed)
      show "pos r = block_bytes ?b (Fixed mb run # post')"
        by (simp add: pos Fixed)
    qed (simp_all add: cur st run)
    have bs: "bs = pre @ Fixed mb run # post'"
      by (simp add: split post Fixed)
    have "reader_inv fd bs ?r'"
    proof (cases "length run - Suc 0 = 0")
      case True
      then have one: "length run = Suc 0"
        using run(1) by (cases run) simp_all
      then obtain e where e: "run = [e]"
        by (cases run) simp_all
      show ?thesis
      proof (rule reader_inv_boundaryI)
        show "bs = (pre @ [Fixed mb run]) @ post'"
          by (simp add: bs)
        show "at_boundary fd (pre @ [Fixed mb run]) post' ?r'"
          by (simp add: at_boundary_def last_did_snoc_Fixed e fixed_values_def)
      qed (simp_all add: ori True)
    next
      case False
      show ?thesis
      proof (rule reader_inv_fixedI)
        show "bs = pre @ Fixed mb run # post'"
          by (rule bs)
        show "in_fixed fd pre mb run post' 0 ?r'"
          using run(1) by (simp add: in_fixed_def pos Fixed hd_conv_nth)
      qed (use False in \<open>simp_all add: ori\<close>)
    qed
    moreover have "len_inv bs ?r'"
      using run(1) by (simp add: len_inv_def bs block_entries_append image_Un)
    moreover have "\<not> is_at_end ?r'"
      using st(1) by simp
    ultimately show ?thesis
      using nx by blast
  qed
qed

lemma fwcr_next_inv:
  assumes ok: "blocks_ok fd bs" and inv: "reader_inv fd bs r" and li: "len_inv bs r"
  shows "\<exists>b r'. fwcr_next r = Inr (b, r') \<and> reader_inv fd bs r' \<and> len_inv bs r'
           \<and> (\<not> b \<longrightarrow> cur_did r' = cur_did r)"
proof -
  have ori: "ori_pos r = block_bytes fd bs" "first_did_in_chunk r = fd"
    using inv by (simp_all add: reader_inv_def)
  consider (ended) "is_at_end r" | (empty) "\<not> is_at_end r" "pos r = []"
    | (go) "\<not> is_at_end r" "pos r \<noteq> []"
    by blast
  then show ?thesis
  proof cases
    case ended
    then have "fwcr_next r = Inr (False, r)"
      by (simp add: fwcr_next_def)
    then show ?thesis
      using inv li by blast
  next
    case empty
    then have "fwcr_next r = Inr (False, r\<lparr>is_at_end := True\<rparr>)"
      by (simp add: fwcr_next_def)
    moreover have "reader_inv fd bs (r\<lparr>is_at_end := True\<rparr>)"
      using inv by simp
    moreover have "len_inv bs (r\<lparr>is_at_end := True\<rparr>)"
      using li by (simp add: len_inv_def)
    ultimately show ?thesis
      by auto
  next
    case go
    consider (boundary) pre post where "\<not> is_in_block r" "bs = pre @ post" "pre \<noteq> []"
        "at_boundary fd pre post r"
      | (fixed) pre mb run post k where "is_in_block r" "bs = pre @ Fixed mb run # post"
          "in_fixed fd pre mb run post k r"
      using inv unfolding reader_inv_def by blast
    then show ?thesis
    proof cases
      case boundary
      have "post \<noteq> []"
        using go(2) boundary(4) by (auto simp: at_boundary_def)
      then have "\<exists>r'. fwcr_next r = Inr (True, r') \<and> reader_inv fd bs r' \<and> len_inv bs r'
          \<and> \<not> is_at_end r'"
        using boundary(1) go(1) by (intro fwcr_next_boundary [OF ok ori boundary(2,4)]) simp_all
      then show ?thesis
        by blast
    next
      case fixed
      have okb: "blocks_ok (last_did fd pre) (Fixed mb run # post)"
        using ok by (simp add: fixed(2) blocks_ok_append)
      then have run: "run \<noteq> []" "consecutive run" "length run < 65536" "unat mb < 256"
          "\<forall>e\<in>set run. unat (snd e) < 256 ^ unat mb"
        by simp_all
      have k: "k < length run" and cur: "cur_did r = fst (run ! k)"
        and pos: "pos r = fixed_values mb (drop (Suc k) run) @ block_bytes (fst (last run)) post"
        and len: "len_info r = of_nat (length run - Suc k)"
        using fixed(3) by (simp_all add: in_fixed_def)
      show ?thesis
      proof (cases "Suc k < length run")
        case True
        let ?r' = "r\<lparr>cur_did := fst (run ! Suc k),
                   len_info := of_nat (length run - Suc (Suc k)),
                   is_in_block := (length run - Suc (Suc k) \<noteq> 0),
                   pos := fixed_values mb (drop (Suc (Suc k)) run)
                            @ block_bytes (fst (last run)) post,
                   cur_length := snd (run ! Suc k)\<rparr>"
        have nx: "fwcr_next r = Inr (True, ?r')"
          using fixed(3) True run(2,3,5) go(1) fixed(1) go(2) by (rule fwcr_next_in_fixed)
        have "reader_inv fd bs ?r'"
        proof (cases "length run - Suc (Suc k) = 0")
          case z: True
          then have last: "Suc k = length run - 1" "Suc (Suc k) = length run"
            using True by simp_all
          show ?thesis
          proof (rule reader_inv_boundaryI)
            show "bs = (pre @ [Fixed mb run]) @ post"
              by (simp add: fixed(2))
            show "at_boundary fd (pre @ [Fixed mb run]) post ?r'"
              using run(1)
              by (simp add: at_boundary_def last_did_snoc_Fixed last fixed_values_def
                  last_conv_nth)
          qed (simp_all add: ori z)
        next
          case nz: False
          show ?thesis
          proof (rule reader_inv_fixedI)
            show "bs = pre @ Fixed mb run # post"
              by (rule fixed(2))
            show "in_fixed fd pre mb run post (Suc k) ?r'"
              using fixed(3) True by (simp add: in_fixed_def)
          qed (use nz in \<open>simp_all add: ori\<close>)
        qed
        moreover have "len_inv bs ?r'"
          using True by (simp add: len_inv_def fixed(2) block_entries_append image_Un)
        ultimately show ?thesis
          using nx by blast
      next
        case False
        then have last: "Suc k = length run"
          using k by simp
        have "len_info r = 0"
          using len last by simp
        then have nb: "\<not> (is_in_block r \<and> len_info r \<noteq> 0)"
          by simp
        have bnd: "at_boundary fd (pre @ [Fixed mb run]) post r"
          using run(1) last [symmetric]
          by (simp add: at_boundary_def last_did_snoc_Fixed cur pos fixed_values_def
              last_conv_nth)
        have bs: "bs = (pre @ [Fixed mb run]) @ post"
          by (simp add: fixed(2))
        have "post \<noteq> []"
          using go(2) bnd by (auto simp: at_boundary_def)
        then have "\<exists>r'. fwcr_next r = Inr (True, r') \<and> reader_inv fd bs r' \<and> len_inv bs r'
            \<and> \<not> is_at_end r'"
          using go(1) nb by (intro fwcr_next_boundary [OF ok ori bs bnd]) simp_all
        then show ?thesis
          by blast
      qed
    qed
  qed
qed

lemma new_FixedWidthChunkReader_inv:
  assumes ok: "blocks_ok fd bs" and ne: "bs \<noteq> []"
  shows "\<exists>r. new_FixedWidthChunkReader (block_bytes fd bs) fd = Inr r \<and> reader_inv fd bs r
           \<and> len_inv bs r \<and> \<not> is_at_end r"
proof -
  let ?r0 = "fwcr_init (block_bytes fd bs) fd"
  have "\<exists>r'. fwcr_next ?r0 = Inr (True, r') \<and> reader_inv fd bs r' \<and> len_inv bs r'
      \<and> \<not> is_at_end r'"
  proof (rule fwcr_next_boundary [OF ok])
    show "bs = [] @ bs"
      by simp
    show "at_boundary fd [] bs ?r0"
      by (simp add: at_boundary_def fwcr_init_def)
  qed (simp_all add: fwcr_init_def ne)
  then show ?thesis
    by (auto simp: new_FixedWidthChunkReader_def)
qed

section \<open>The keys of the doclen list\<close>

lemma be_bytes_nonempty: "be_bytes n \<noteq> []"
  by (subst be_bytes.simps) simp

lemma be_bytes_upper: "n < 256 ^ length (be_bytes n)"
proof (induction n rule: be_bytes.induct)
  case (1 n)
  show ?case
  proof (cases "n < 256")
    case True
    then show ?thesis
      by (subst be_bytes.simps) simp
  next
    case False
    then have "n div 256 < 256 ^ length (be_bytes (n div 256))"
      by (rule "1.IH")
    then have "n < 256 * 256 ^ length (be_bytes (n div 256))"
      by (simp add: div_less_iff_less_mult mult.commute)
    then show ?thesis
      using False by (subst be_bytes.simps) simp
  qed
qed

lemma be_bytes_lower: "length (be_bytes n) = Suc (Suc k) \<Longrightarrow> 256 ^ Suc k \<le> n"
proof (induction n arbitrary: k rule: be_bytes.induct)
  case (1 n)
  have ge: "\<not> n < 256"
    using "1.prems" by (subst (asm) be_bytes.simps) (auto split: if_splits)
  then have len: "length (be_bytes (n div 256)) = Suc k"
    using "1.prems" by (subst (asm) be_bytes.simps) simp
  show ?case
  proof (cases k)
    case 0
    then show ?thesis
      using ge by simp
  next
    case (Suc j)
    then have "256 ^ Suc j \<le> n div 256"
      using "1.IH" [OF ge, of j] len by simp
    then have "256 * 256 ^ Suc j \<le> n"
      by (simp add: less_eq_div_iff_mult_less_eq mult.commute)
    then show ?thesis
      by (simp add: Suc)
  qed
qed

lemma be_bytes_length_le: "n < 256 ^ Suc k \<Longrightarrow> length (be_bytes n) \<le> Suc k"
proof (rule ccontr)
  assume n: "n < 256 ^ Suc k" and "\<not> length (be_bytes n) \<le> Suc k"
  then obtain j where j: "length (be_bytes n) = Suc (Suc j)" and "k \<le> j"
    by (metis Suc_le_D Suc_le_mono not_less_eq_eq)
  then have "(256 :: nat) ^ Suc k \<le> 256 ^ Suc j"
    by (intro power_increasing) simp_all
  moreover have "256 ^ Suc j \<le> n"
    using j by (rule be_bytes_lower)
  ultimately have "256 ^ Suc k \<le> n"
    by (rule order_trans)
  with n show False
    by (meson not_le)
qed

lemma be_bytes_length_mono:
  assumes "length (be_bytes a) < length (be_bytes b)"
  shows "a < b"
proof -
  obtain k where k: "length (be_bytes b) = Suc (Suc k)" and le: "length (be_bytes a) \<le> Suc k"
    using assms be_bytes_nonempty [of a]
    by (metis Suc_leI Suc_le_D Suc_le_mono length_greater_0_conv)
  have "a < 256 ^ length (be_bytes a)"
    by (rule be_bytes_upper)
  also have "\<dots> \<le> 256 ^ Suc k"
    using le by (intro power_increasing) simp_all
  also have "\<dots> \<le> b"
    using k by (rule be_bytes_lower)
  finally show ?thesis .
qed

lemma be_value_snoc: "be_value acc (xs @ [b]) = be_value acc xs * 256 + unat b"
  by (induction xs arbitrary: acc) simp_all

lemma be_value_be_bytes: "be_value 0 (be_bytes n) = n"
proof (induction n rule: be_bytes.induct)
  case (1 n)
  show ?case
  proof (cases "n < 256")
    case True
    then show ?thesis
      by (subst be_bytes.simps) (simp add: unat_of_nat)
  next
    case False
    have "unat (of_nat (n mod 256) :: byte) = n mod 256"
      by (simp add: unat_of_nat)
    then show ?thesis
      using False "1.IH" by (subst be_bytes.simps) (simp add: be_value_snoc)
  qed
qed

lemma be_value_acc: "be_value acc xs = acc * 256 ^ length xs + be_value 0 xs"
proof (induction xs arbitrary: acc)
  case Nil
  then show ?case by simp
next
  case (Cons b xs)
  show ?case
    using Cons.IH [of "acc * 256 + unat b"] Cons.IH [of "unat b"]
    by (simp add: algebra_simps)
qed

lemma be_value_bound: "be_value 0 xs < 256 ^ length xs"
proof (induction xs rule: rev_induct)
  case Nil
  then show ?case by simp
next
  case (snoc b xs)
  have "unat b < 256"
    using unsigned_less [of b] by simp
  then show ?case
    using snoc by (simp add: be_value_snoc)
qed

lemma be_value_lex:
  assumes "length xs = length ys" and "be_value 0 xs < be_value 0 ys"
  shows "xs < ys"
  using assms
proof (induction xs ys rule: list_induct2)
  case Nil
  then show ?case by simp
next
  case (Cons a xs b ys)
  let ?n = "length ys"
  have vx: "be_value 0 (a # xs) = unat a * 256 ^ ?n + be_value 0 xs"
    using be_value_acc [of "unat a" xs] Cons.hyps by simp
  have vy: "be_value 0 (b # ys) = unat b * 256 ^ ?n + be_value 0 ys"
    using be_value_acc [of "unat b" ys] by simp
  have bx: "be_value 0 xs < 256 ^ ?n" and by': "be_value 0 ys < 256 ^ ?n"
    using be_value_bound [of xs] be_value_bound [of ys] Cons.hyps by simp_all
  consider "a < b" | "a = b" | "b < a"
    by (metis linorder_neqE)
  then show ?case
  proof cases
    case 1
    then show ?thesis by simp
  next
    case 2
    then have "be_value 0 xs < be_value 0 ys"
      using Cons.prems vx vy by simp
    then show ?thesis
      using Cons.IH 2 by simp
  next
    case 3
    then have "Suc (unat b) \<le> unat a"
      by (simp add: word_less_nat_alt)
    then have "Suc (unat b) * 256 ^ ?n \<le> unat a * 256 ^ ?n"
      by (rule mult_le_mono1)
    then have "be_value 0 (b # ys) < be_value 0 (a # xs)"
      using vx vy by' by simp
    then show ?thesis
      using Cons.prems by simp
  qed
qed

lemma length_be_bytes_word: "length (be_bytes (unat (v :: 32 word))) \<le> 4"
proof -
  have "unat v < 256 ^ Suc 3"
    using unsigned_less [of v] by simp
  then have "length (be_bytes (unat v)) \<le> Suc 3"
    by (rule be_bytes_length_le)
  then show ?thesis
    by simp
qed

lemma pack_uint_preserving_sort_mono:
  assumes "a < b"
  shows "pack_uint_preserving_sort a < pack_uint_preserving_sort b"
proof -
  let ?la = "length (be_bytes (unat a))" and ?lb = "length (be_bytes (unat b))"
  have ab: "unat a < unat b"
    using assms by (simp add: word_less_nat_alt)
  have la: "?la \<le> 4" and lb: "?lb \<le> 4"
    by (rule length_be_bytes_word)+
  have "\<not> ?lb < ?la"
    using be_bytes_length_mono [of "unat b" "unat a"] ab by auto
  then consider "?la < ?lb" | "?la = ?lb"
    by linarith
  then show ?thesis
  proof cases
    case 1
    then have "(of_nat ?la :: byte) < of_nat ?lb"
      using la lb by (simp add: word_less_nat_alt unat_of_nat)
    then show ?thesis
      by (simp add: pack_uint_preserving_sort_def)
  next
    case 2
    then have "be_bytes (unat a) < be_bytes (unat b)"
      using ab by (intro be_value_lex) (simp_all add: be_value_be_bytes)
    then show ?thesis
      using 2 by (simp add: pack_uint_preserving_sort_def)
  qed
qed

lemma pack_uint_preserving_sort_le:
  "pack_uint_preserving_sort a \<le> pack_uint_preserving_sort b \<longleftrightarrow> a \<le> b"
  using pack_uint_preserving_sort_mono [of a b] pack_uint_preserving_sort_mono [of b a]
  by (metis leD leI order_le_less order_refl)

lemma unpack_pack_uint_preserving_sort:
  "unpack_uint_preserving_sort (pack_uint_preserving_sort v) = Inr (v, [])"
proof -
  let ?l = "length (be_bytes (unat v))"
  have "?l \<le> 4"
    by (rule length_be_bytes_word)
  then have "unat (of_nat ?l :: byte) = ?l"
    by (simp add: unat_of_nat)
  then show ?thesis
    using \<open>?l \<le> 4\<close>
    by (simp add: unpack_uint_preserving_sort_def pack_uint_preserving_sort_def
        be_value_be_bytes)
qed

section \<open>The doclen list has no posting chunks\<close>

text \<open>
  C10: for every call \<open>get_chunk(tname, did, adding)\<close> with the empty \<open>tname\<close> (the doclen
  list), both out-parameters are null and the result is \<open>docid(-1)\<close>, whatever the table
  holds; \<open>get_chunk\<close> returns no new table, the table is as before.
\<close>

theorem get_chunk_doclen_list:
  "get_chunk [] did adding t = Inr (- 1, None, None)"
  by (simp add: get_chunk_def)

section \<open>The merge step of the doclen chunk writer\<close>

lemma decode_loop_single_entry: "decode_loop [0, 1] 5 [] = Inr [(5, 1)]"
  by (simp add: decode_loop.simps [of "[0, 1]"] decode_loop.simps [of "[]"] unpack_uint_def
      unchecked_read_def SEPERATOR_def)

text \<open>
  C3: a chunk holds the single docid 5 (chunk header: last chunk, last docid = first
  docid; body: increment 0, length 1) and the changes delete docid 5 and add docid 6
  with length 7. The deletion erases the entry and leaves \<open>ori_it\<close> at the end of
  \<open>new_doclen\<close>; the next turn of the loop reads \<open>ori_it->first\<close> there, so docid 6 is not
  inserted by defined behaviour.
\<close>

theorem get_new_doclen_end_deref:
  "get_new_doclen \<lparr>chunk_from = [0x31, 0, 0, 1], changes = [(5, SEPERATOR), (6, 7)],
      dcw_is_first_chunk = False, dcw_first_did_in_chunk = 5, dcw_is_last_chunk = False,
      new_doclen = []\<rparr> = Inl UndefinedBehaviour"
  by (simp add: get_new_doclen_def read_start_of_chunk_def unpack_bool_def
      decode_loop_single_entry unpack_uint_def SEPERATOR_def)

section \<open>Flushing and merging: the table\<close>

text \<open>
  C9: for every table, \<open>merge_doclen_changes\<close> with an empty change map resets the cached
  doclen posting list and returns: the entries of the table are as before, and no dummy
  first chunk is added. The result does not depend on the fuel.
\<close>

theorem merge_doclen_changes_empty:
  "merge_doclen_changes fuel min_contig min_ratio max_entries [] tbl
     = Some (Inr (tbl\<lparr>doclen_pl_cached := False\<rparr>))"
  by (simp add: merge_doclen_changes_def)

text \<open>
  C4: \<open>flush\<close> on a writer with nothing appended, for a first chunk that is not the
  last one, whose key is in the table with a readable first-chunk header
  \<open>(num_ent, coll_freq)\<close>. \<open>c2\<close> is the cursor after \<open>next()\<close>. When there is no next key,
  or its term is another one, \<open>DatabaseCorruptError\<close> is thrown. When the next key is of
  the same term, holds the docid \<open>new_first_did\<close>, and its tag has a readable chunk
  header, the next key is deleted and the key of the first chunk holds the first-chunk
  header with \<open>(num_ent, coll_freq, new_first_did)\<close>, the chunk header of the next chunk
  and its body; every other key is as before.
\<close>

theorem flush_empty_first_chunk:
  assumes "\<not> started w" and "is_first_chunk w" and "\<not> is_last_chunk w"
    and "find_entry (orig_key w) t cursor_get = (True, c0)"
    and "read_start_of_first_chunk (current_tag (read_tag t c0))
           = Inr (num_ent, coll_freq, did0, tagpos0)"
    and "c2 = cursor_next t (read_tag t c0)"
  shows "(is_after_end c2
          \<or> (\<exists>kpos. check_tname_in_key (current_key c2) (tname w) = Inr (False, kpos))
          \<longrightarrow> flush w t = Inl DatabaseCorruptError)
       \<and> (\<not> is_after_end c2
          \<and> check_tname_in_key (current_key c2) (tname w) = Inr (True, kpos)
          \<and> unpack_uint_preserving_sort kpos = Inr (new_first_did, kpos')
          \<and> read_start_of_chunk (current_tag (read_tag t c2)) new_first_did
               = Inr (new_is_last, new_last_did, chunk_data)
          \<longrightarrow> (\<exists>t'. flush w t = Inr t'
                 \<and> map_of t' = (map_of t)(current_key c2 := None,
                      orig_key w \<mapsto> make_start_of_first_chunk num_ent coll_freq new_first_did
                                   @ make_start_of_chunk new_is_last new_first_did new_last_did
                                   @ chunk_data)))"
  using assms
  by (auto simp: flush_def flush_first_deleted_def Let_def map_of_table_add map_of_table_del)

theorem flush_empty_first_chunk_witness:
  "\<exists>t'. flush \<lparr>orig_key = [0x61], tname = [0x61], is_first_chunk = True, is_last_chunk = False,
              started = False, first_did = 0, current_did = 0, chunk = []\<rparr>
           [([0x61], [2, 3, 0, 0x30, 0, 1]), ([0x61, 0, 1, 5], [0x31, 0, 2])] = Inr t'
       \<and> map_of t' [0x61] = Some [2, 3, 4, 0x31, 0, 2]
       \<and> map_of t' [0x61, 0, 1, 5] = None"
proof -
  let ?w = "\<lparr>orig_key = [0x61], tname = [0x61], is_first_chunk = True, is_last_chunk = False,
      started = False, first_did = 0, current_did = 0, chunk = []\<rparr> :: PostlistChunkWriter"
  let ?t = "[([0x61], [2, 3, 0, 0x30, 0, 1]), ([0x61, 0, 1, 5], [0x31, 0, 2])] :: table"
  let ?c0 = "\<lparr>current_key = [0x61], current_tag = [], is_after_end = False\<rparr> :: BrassCursor"
  let ?c2 = "\<lparr>current_key = [0x61, 0, 1, 5], current_tag = [2, 3, 0, 0x30, 0, 1],
      is_after_end = False\<rparr> :: BrassCursor"
  have h4: "find_entry (orig_key ?w) ?t cursor_get = (True, ?c0)"
    by (simp add: find_entry_def cursor_get_def)
  have h5: "read_start_of_first_chunk (current_tag (read_tag ?t ?c0)) = Inr (2, 3, 1, [0x30, 0, 1])"
    by (simp add: read_tag_def read_start_of_first_chunk_def read_number_of_entries_def
        unpack_uint_small)
  have h6: "?c2 = cursor_next ?t (read_tag ?t ?c0)"
    by (simp add: cursor_next_def read_tag_def)
  have k: "check_tname_in_key (current_key ?c2) (tname ?w) = Inr (True, [1, 5])"
    by (simp add: check_tname_in_key_def check_tname_in_key_lite_def get_tname_from_key_def)
  have u: "unpack_uint_preserving_sort [1, 5] = Inr (5, [])"
    by (simp add: unpack_uint_preserving_sort_def)
  have rs: "read_start_of_chunk (current_tag (read_tag ?t ?c2)) 5 = Inr (True, 5, [2])"
    by (simp add: read_tag_def read_start_of_chunk_def unpack_bool_def unpack_uint_small)
  have hdr: "make_start_of_first_chunk 2 3 5 @ make_start_of_chunk True 5 5 @ [2]
      = [2, 3, 4, 0x31, 0, 2]"
    by (simp add: make_start_of_first_chunk_def make_start_of_chunk_def pack_bool_def
        pack_uint_small)
  from flush_empty_first_chunk [of ?w ?t ?c0 2 3 1 "[0x30, 0, 1]" ?c2 "[1, 5]" 5 "[]" True 5 "[2]",
      OF _ _ _ h4 h5 h6] k u rs hdr
  show ?thesis
    by auto
qed

section \<open>Moving the cursor to the next chunk\<close>

lemma unpack_pack_bool: "unpack_bool (pack_bool b @ rest) = Inr (b, rest)"
  by (simp add: unpack_bool_def pack_bool_def)

lemma read_start_of_chunk_made:
  "read_start_of_chunk (make_start_of_chunk il fd ld @ body) first_did'
     = Inr (il, first_did' + (ld - fd), body)"
  by (simp add: read_start_of_chunk_def make_start_of_chunk_def unpack_pack_bool
      unpack_pack_uint)

lemma first_entry_of_encoded:
  assumes "fwcr_next (fwcr_init (snd (encode mc r M [])) fd) = Inr (b, rd)"
  shows "cur_did rd = fd"
proof (cases M)
  case Nil
  then show ?thesis
    using assms by (auto simp: encode_def fwcr_next_def fwcr_init_def)
next
  case (Cons e rest)
  obtain d l where e: "e = (d, l)"
    by (cases e)
  obtain run it where step: "run = (d, l) # tl run"
    "(mc < of_nat (length run)
        \<and> encode_blocks mc r ((d, l) # rest) = Fixed (get_max_bytes l) run # encode_blocks mc r it)
     \<or> (\<not> mc < of_nat (length run)
        \<and> encode_blocks mc r ((d, l) # rest)
            = map (\<lambda>e. Normal (fst e) (snd e)) run @ encode_blocks mc r it)"
    by (rule encode_blocks_step [of d l rest r mc])
  have bytes: "snd (encode mc r M []) = block_bytes d (encode_blocks mc r ((d, l) # rest))"
    using encode_block_bytes [of M mc r] by (simp add: Cons e)
  from step(2) show ?thesis
  proof
    assume "mc < of_nat (length run)
        \<and> encode_blocks mc r ((d, l) # rest) = Fixed (get_max_bytes l) run # encode_blocks mc r it"
    moreover have "fst (hd run) = d"
      using step(1) by (metis fst_conv list.sel(1))
    ultimately have "\<exists>tail. snd (encode mc r M []) = pack_uint SEPERATOR @ pack_uint 0 @ tail"
      by (simp add: bytes)
    then obtain tail where "snd (encode mc r M []) = pack_uint SEPERATOR @ pack_uint 0 @ tail"
      by blast
    then show ?thesis
      using assms
      by (auto simp: fwcr_next_def fwcr_init_def pack_uint_nonempty unchecked_unpack_pack_uint
          Let_def split: sum.splits if_splits)
  next
    assume "\<not> mc < of_nat (length run)
        \<and> encode_blocks mc r ((d, l) # rest)
            = map (\<lambda>e. Normal (fst e) (snd e)) run @ encode_blocks mc r it"
    then have "encode_blocks mc r ((d, l) # rest)
        = Normal d l # map (\<lambda>e. Normal (fst e) (snd e)) (tl run) @ encode_blocks mc r it"
      using step(1) by (metis (no_types, lifting) append_Cons fst_conv list.simps(9) snd_conv)
    then have "\<exists>tail. snd (encode mc r M []) = pack_uint 0 @ pack_uint l @ tail"
      by (simp add: bytes)
    then obtain tail where "snd (encode mc r M []) = pack_uint 0 @ pack_uint l @ tail"
      by blast
    then show ?thesis
      using assms
      by (auto simp: fwcr_next_def fwcr_init_def pack_uint_nonempty unchecked_unpack_pack_uint
          Let_def SEPERATOR_def split: sum.splits if_splits)
  qed
qed

text \<open>
  C8: the cursor of a posting list moves to the next chunk of its term (the current chunk
  is not the last one, the table cursor finds a next key \<open>c1\<close>, the key is of the same
  term and holds the docid \<open>newdid\<close>). When \<open>newdid\<close> is not greater than the docid the
  cursor stands on, \<open>DatabaseCorruptError\<close> is thrown; otherwise, when \<open>next_chunk\<close>
  returns, the current docid is \<open>newdid\<close>. For the doclen list the docid is read from the
  chunk reader, and the chunk is one that the doclen writer wrote (a chunk header and a
  body from \<open>encode\<close>).
\<close>

theorem next_chunk_docid_order:
  assumes "\<not> pl_is_last_chunk pl"
    and "c1 = cursor_next t (pl_cursor pl)" and "\<not> is_after_end c1"
    and "check_tname_in_key_lite (current_key c1) (pl_term pl) = Inr (True, keypos)"
    and "unpack_uint_preserving_sort keypos = Inr (newdid, keypos')"
    and "is_doclen_list pl \<longrightarrow>
           current_tag (read_tag t c1) = make_start_of_chunk il fd ld @ snd (encode mc r M [])"
  shows "(newdid \<le> pl_did pl \<longrightarrow> next_chunk t pl = Inl DatabaseCorruptError)
       \<and> (pl_did pl < newdid \<longrightarrow> (\<forall>pl'. next_chunk t pl = Inr pl' \<longrightarrow> pl_did pl' = newdid))"
proof (intro conjI impI allI)
  assume "newdid \<le> pl_did pl"
  then show "next_chunk t pl = Inl DatabaseCorruptError"
    using assms(1-5) by (simp add: next_chunk_def Let_def)
next
  fix pl'
  assume lt: "pl_did pl < newdid" and ret: "next_chunk t pl = Inr pl'"
  show "pl_did pl' = newdid"
  proof (cases "is_doclen_list pl")
    case False
    then show ?thesis
      using assms(1-5) lt ret
      by (auto simp: next_chunk_def Let_def not_le split: sum.splits if_splits)
  next
    case True
    then have tag: "current_tag (read_tag t c1) = make_start_of_chunk il fd ld @ snd (encode mc r M [])"
      using assms(6) by simp
    from ret obtain rd where rd: "new_DoclenChunkReader (current_tag (read_tag t c1)) False newdid = Inr rd"
      and did: "pl_did pl' = get_docid rd"
      using assms(1-5) lt True
      by (auto simp: next_chunk_def Let_def not_le tag read_start_of_chunk_made
          split: sum.splits if_splits)
    from rd obtain b where "fwcr_next (fwcr_init (snd (encode mc r M [])) newdid) = Inr (b, rd)"
      by (auto simp: new_DoclenChunkReader_def tag read_start_of_chunk_made
          new_FixedWidthChunkReader_def split: sum.splits)
    from first_entry_of_encoded [OF this] did show ?thesis
      by (simp add: get_docid_def)
  qed
qed


lemma encode_two_entries: "snd (encode 2 (4 / 5) [(5, 3), (6, 4)] []) = [0, 3, 1, 4]"
  by (simp add: encode_block_bytes encode_blocks.simps get_max_bytes_small ratio_below_def
      Let_def pack_uint_small)

theorem next_chunk_docid_order_witness:
  "\<exists>pl'. next_chunk [([0, 0xe0], [2, 0, 0, 0x30, 1, 0, 7, 1, 8]), ([0, 0xe0, 1, 5], [0x31, 1, 0, 3, 1, 4])]
      \<lparr>pl_term = [], have_started = True, pl_is_at_end = False,
       pl_cursor = \<lparr>current_key = [0, 0xe0], current_tag = [2, 0, 0, 0x30, 1, 0, 7, 1, 8],
                    is_after_end = False\<rparr>,
       p_doclen_chunk_reader = None, is_doclen_list = True, pl_pos = [], pl_did = 2,
       pl_wdf = 8, pl_first_did_in_chunk = 1, pl_last_did_in_chunk = 2,
       pl_is_first_chunk = True, pl_is_last_chunk = False, number_of_entries = 2\<rparr> = Inr pl'
     \<and> pl_did pl' = 5"
proof -
  let ?t = "[([0, 0xe0], [2, 0, 0, 0x30, 1, 0, 7, 1, 8]), ([0, 0xe0, 1, 5], [0x31, 1, 0, 3, 1, 4])] :: table"
  let ?c0 = "\<lparr>current_key = [0, 0xe0], current_tag = [2, 0, 0, 0x30, 1, 0, 7, 1, 8],
      is_after_end = False\<rparr> :: BrassCursor"
  let ?pl = "\<lparr>pl_term = [], have_started = True, pl_is_at_end = False, pl_cursor = ?c0,
      p_doclen_chunk_reader = None, is_doclen_list = True, pl_pos = [], pl_did = 2,
      pl_wdf = 8, pl_first_did_in_chunk = 1, pl_last_did_in_chunk = 2,
      pl_is_first_chunk = True, pl_is_last_chunk = False, number_of_entries = 2\<rparr> :: BrassPostList"
  let ?c1 = "?c0\<lparr>current_key := [0, 0xe0, 1, 5]\<rparr>"
  have c1: "?c1 = cursor_next ?t (pl_cursor ?pl)"
    by (simp add: cursor_next_def)
  have chk: "check_tname_in_key_lite (current_key ?c1) (pl_term ?pl) = Inr (True, [1, 5])"
    by (simp add: check_tname_in_key_lite_def)
  have key: "unpack_uint_preserving_sort [1, 5] = Inr (5, [])"
    by (simp add: unpack_uint_preserving_sort_def)
  have tag: "is_doclen_list ?pl \<longrightarrow> current_tag (read_tag ?t ?c1)
      = make_start_of_chunk True 5 6 @ snd (encode 2 (4 / 5) [(5, 3), (6, 4)] [])"
    by (simp add: read_tag_def encode_two_entries make_start_of_chunk_def pack_bool_def
        pack_uint_small)
  have ret: "\<exists>pl'. next_chunk ?t ?pl = Inr pl'"
    by (simp add: next_chunk_def cursor_next_def check_tname_in_key_lite_def key read_tag_def
        read_start_of_chunk_def unpack_bool_def unpack_uint_small new_DoclenChunkReader_def
        new_FixedWidthChunkReader_def fwcr_next_def fwcr_init_def unchecked_read_def
        SEPERATOR_def Let_def)
  from next_chunk_docid_order [of ?pl ?c1 ?t "[1, 5]" 5 "[]" True 5 6 2 "4 / 5" "[(5, 3), (6, 4)]",
      OF _ c1 _ chk key tag] ret
  show ?thesis
    by auto
qed

lemma between_prefix:
  fixes xs :: "byte list"
  shows "xs \<le> y \<Longrightarrow> y \<le> xs @ w \<Longrightarrow> \<exists>w'. y = xs @ w' \<and> w' \<le> w"
proof (induction xs arbitrary: y)
  case Nil
  then show ?case by simp
next
  case (Cons a xs)
  then obtain b y' where y: "y = b # y'"
    by (cases y) auto
  from Cons.prems have "a = b" "xs \<le> y'" "y' \<le> xs @ w"
    by (auto simp: y)
  then show ?case
    using Cons.IH [of y'] by (auto simp: y)
qed

lemma above_prefix:
  fixes p :: "byte list"
  assumes "p \<le> b" and "\<not> (\<exists>w. b = p @ w)"
  shows "p @ x < b"
proof (rule ccontr)
  assume "\<not> p @ x < b"
  then have "b \<le> p @ x"
    by simp
  with assms(1) obtain w' where "b = p @ w'"
    using between_prefix [of p b x] by blast
  with assms(2) show False
    by blast
qed

section \<open>The table at a key\<close>

lemma sorted_keys_hd:
  fixes Y :: table
  assumes "sorted_wrt (<) (map fst (X @ e # Y))" and "Y \<noteq> []" and "K < fst (hd Y)"
  shows "\<forall>y\<in>set Y. K < fst y"
proof -
  obtain y Y' where Y: "Y = y # Y'"
    using assms(2) by (cases Y) auto
  have "\<forall>z\<in>set Y'. fst y < fst z"
    using assms(1) by (simp add: Y sorted_wrt_append)
  moreover have "K < fst y"
    using assms(3) by (simp add: Y)
  ultimately have "\<forall>z\<in>set Y'. K < fst z"
    by (blast intro: less_trans)
  then show ?thesis
    using assms(3) by (simp add: Y)
qed

lemma find_entry_at:
  assumes srt: "sorted_wrt (<) (map fst (X @ (k, v) # Y))" and le: "k \<le> K"
    and above: "\<forall>y\<in>set Y. K < fst y"
  shows "find_entry K (X @ (k, v) # Y) c = (k = K, c\<lparr>current_key := k, is_after_end := False\<rparr>)"
proof -
  have "\<forall>x\<in>set X. fst x < k"
    using srt by (auto simp: sorted_wrt_append)
  then have X: "filter (\<lambda>e. fst e \<le> K) X = X"
    using le by (auto simp: filter_id_conv intro: less_imp_le order_trans)
  have Y: "filter (\<lambda>e. fst e \<le> K) Y = []"
    using above by (auto simp: filter_empty_conv)
  have f: "filter (\<lambda>e. fst e \<le> K) (X @ (k, v) # Y) = X @ [(k, v)]"
    using le by (simp add: X Y)
  obtain e es where ees: "X @ [(k, v)] = e # es"
    by (cases X) auto
  have "last (e # es) = (k, v)"
    unfolding ees [symmetric] by simp
  then show ?thesis
    unfolding find_entry_def f ees by simp
qed

lemma cursor_next_at:
  assumes srt: "sorted_wrt (<) (map fst (X @ (k, v) # Y))" and key: "current_key c = k"
  shows "cursor_next (X @ (k, v) # Y) c
       = (case Y of [] \<Rightarrow> c\<lparr>is_after_end := True\<rparr> | e # es \<Rightarrow> c\<lparr>current_key := fst e\<rparr>)"
proof -
  have "\<forall>x\<in>set X. fst x < k" and "\<forall>y\<in>set Y. k < fst y"
    using srt by (auto simp: sorted_wrt_append)
  then have "filter (\<lambda>e. fst e > k) X = []" and "filter (\<lambda>e. fst e > k) Y = Y"
    by (auto simp: filter_empty_conv filter_id_conv dest: less_asym)
  then show ?thesis
    by (simp add: cursor_next_def key)
qed

lemma read_tag_at:
  assumes srt: "sorted_wrt (<) (map fst (X @ (k, v) # Y))" and key: "current_key c = k"
  shows "read_tag (X @ (k, v) # Y) c = c\<lparr>current_tag := v\<rparr>"
proof -
  have "\<forall>x\<in>set X. fst x < k"
    using srt by (auto simp: sorted_wrt_append)
  then have "k \<notin> fst ` set X"
    by auto
  then have "map_of (X @ (k, v) # Y) k = Some v"
    by (simp add: map_of_append map_add_def map_of_eq_None_iff [THEN iffD2])
  then show ?thesis
    by (simp add: read_tag_def key)
qed

section \<open>The doclen list in the table\<close>

text \<open>
  The entries \<open>DoclenChunkWriter::merge_doclen_changes\<close> adds to the table for the chunks
  \<open>Ms\<close> of the doclen list: the first chunk under the key of the empty term, with the
  header of a first chunk, every later chunk under the key of its first docid; each with
  the chunk header (the last chunk marked) and the body \<open>encode\<close> writes.
\<close>

definition doclen_key :: "bool \<Rightarrow> doclen_entries \<Rightarrow> byte list" where
  "doclen_key is_first M = (if is_first then make_key [] else make_key_did [] (fst (hd M)))"

definition doclen_tag :: "32 word \<Rightarrow> rat \<Rightarrow> bool \<Rightarrow> bool \<Rightarrow> doclen_entries \<Rightarrow> byte list" where
  "doclen_tag min_contig min_ratio is_first is_last M =
     (if is_first then make_start_of_first_chunk 0 0 (fst (hd M)) else [])
       @ make_start_of_chunk is_last (fst (hd M)) (fst (last M))
       @ snd (encode min_contig min_ratio M [])"

fun doclen_list :: "32 word \<Rightarrow> rat \<Rightarrow> bool \<Rightarrow> doclen_entries list \<Rightarrow> table" where
  "doclen_list min_contig min_ratio is_first [] = []"
| "doclen_list min_contig min_ratio is_first (M # Ms) =
     (doclen_key is_first M, doclen_tag min_contig min_ratio is_first (Ms = []) M)
       # doclen_list min_contig min_ratio False Ms"

lemma doclen_list_split:
  "\<exists>P. doclen_list mc mr f (Pre @ M # Post)
     = P @ (doclen_key (f \<and> Pre = []) M, doclen_tag mc mr (f \<and> Pre = []) (Post = []) M)
         # doclen_list mc mr False Post"
proof (induction Pre arbitrary: f)
  case Nil
  show ?case
    by (rule exI [of _ "[]"]) simp
next
  case (Cons M0 Pre)
  obtain P where "doclen_list mc mr False (Pre @ M # Post)
      = P @ (doclen_key (False \<and> Pre = []) M, doclen_tag mc mr (False \<and> Pre = []) (Post = []) M)
          # doclen_list mc mr False Post"
    using Cons [of False] by blast
  then show ?case
    by (intro exI [of _ "(doclen_key f M0, doclen_tag mc mr f False M0) # P"]) simp
qed

lemma doclen_key_prefix: "\<exists>w. doclen_key f M = [0, 0xe0] @ w"
  by (simp add: doclen_key_def make_key_def make_key_did_def)

lemma check_doclen_key:
  "check_tname_in_key_lite (doclen_key f M) []
     = Inr (True, if f then [] else pack_uint_preserving_sort (fst (hd M)))"
  by (simp add: check_tname_in_key_lite_def doclen_key_def make_key_def make_key_did_def)

lemma read_start_of_first_chunk_made:
  "read_start_of_first_chunk (make_start_of_first_chunk n cf fd @ rest) = Inr (n, cf, fd, rest)"
  by (simp add: read_start_of_first_chunk_def read_number_of_entries_def
      make_start_of_first_chunk_def unpack_pack_uint)

text \<open>
  The chunks of a doclen list: none is empty or has 65536 entries or more, the docids
  go up through the list and none is 0, and no length is the \<open>-1\<close> that marks a deletion.
  The table holds the list among other entries, in key order; no later key starts with
  the two bytes of the doclen keys.
\<close>

definition list_ok :: "doclen_entries list \<Rightarrow> bool" where
  "list_ok Ms =
     (Ms \<noteq> [] \<and> (\<forall>M\<in>set Ms. M \<noteq> [] \<and> length M < 65536)
      \<and> sorted_wrt (<) (map fst (concat Ms))
      \<and> (\<forall>e\<in>set (concat Ms). fst e \<noteq> 0 \<and> snd e \<noteq> - 1))"

definition table_ok ::
  "32 word \<Rightarrow> rat \<Rightarrow> doclen_entries list \<Rightarrow> table \<Rightarrow> table \<Rightarrow> table \<Rightarrow> bool" where
  "table_ok mc mr Ms A B t =
     (t = A @ doclen_list mc mr True Ms @ B \<and> sorted_wrt (<) (map fst t)
      \<and> (\<forall>e\<in>set B. take 2 (fst e) \<noteq> [0, 0xe0]))"

lemma table_okD:
  assumes "table_ok mc mr Ms A B t"
  shows "t = A @ doclen_list mc mr True Ms @ B" and "sorted_wrt (<) (map fst t)"
    and "\<forall>e\<in>set B. take 2 (fst e) \<noteq> [0, 0xe0]"
  using assms unfolding table_ok_def by blast+

lemma chunk_facts:
  assumes "list_ok (Pre @ M # Post)"
  shows "M \<noteq> []" and "sorted_wrt (<) (map fst M)" and "\<forall>e\<in>set M. fst e \<noteq> 0"
    and "length M < 65536" and "\<forall>e\<in>set M. snd e \<noteq> - 1"
    and "\<forall>x\<in>set (concat Pre). \<forall>y\<in>set M. fst x < fst y"
    and "\<forall>x\<in>set M. \<forall>y\<in>set (concat Post). fst x < fst y"
    and "\<forall>x\<in>set (concat Pre). \<forall>y\<in>set (concat Post). fst x < fst y"
proof -
  have srt: "sorted_wrt (<) (map fst (concat Pre) @ map fst M @ map fst (concat Post))"
    using assms by (simp add: list_ok_def)
  show "M \<noteq> []" "length M < 65536"
    using assms by (simp_all add: list_ok_def)
  show "\<forall>e\<in>set M. fst e \<noteq> 0" "\<forall>e\<in>set M. snd e \<noteq> - 1"
    using assms by (simp_all add: list_ok_def)
  show "sorted_wrt (<) (map fst M)"
    using srt by (simp add: sorted_wrt_append)
  have 1: "\<forall>x\<in>set (map fst (concat Pre)). \<forall>y\<in>set (map fst M @ map fst (concat Post)). x < y"
    using srt by (simp only: sorted_wrt_append) blast
  have 2: "\<forall>x\<in>set (map fst M). \<forall>y\<in>set (map fst (concat Post)). x < y"
    using srt by (simp only: sorted_wrt_append) blast
  show "\<forall>x\<in>set (concat Pre). \<forall>y\<in>set M. fst x < fst y"
    using 1 by (simp del: set_concat)
  show "\<forall>x\<in>set M. \<forall>y\<in>set (concat Post). fst x < fst y"
    using 2 by (simp del: set_concat)
  show "\<forall>x\<in>set (concat Pre). \<forall>y\<in>set (concat Post). fst x < fst y"
    using 1 by (simp del: set_concat)
qed

lemma le_append: "(xs :: byte list) \<le> xs @ w"
  by (induction xs) auto

lemma chunk_blocks:
  assumes "list_ok (Pre @ M # Post)"
  shows "blocks_ok (fst (hd M)) (encode_blocks mc mr M)"
    and "block_entries (encode_blocks mc mr M) = M"
    and "snd (encode mc mr M []) = block_bytes (fst (hd M)) (encode_blocks mc mr M)"
    and "encode_blocks mc mr M \<noteq> []"
    and "sorted_wrt (<) (map fst (block_entries (encode_blocks mc mr M)))"
proof -
  note f = chunk_facts [OF assms]
  have "start_ok (fst (hd M)) M"
    by (simp add: start_ok_def)
  then show "blocks_ok (fst (hd M)) (encode_blocks mc mr M)"
    using f(2-4) by (intro blocks_ok_encode_blocks)
  show ent: "block_entries (encode_blocks mc mr M) = M"
    by (rule block_entries_encode_blocks)
  show "snd (encode mc mr M []) = block_bytes (fst (hd M)) (encode_blocks mc mr M)"
    using f(1) by (rule encode_block_bytes)
  show "encode_blocks mc mr M \<noteq> []"
    using ent f(1) by auto
  show "sorted_wrt (<) (map fst (block_entries (encode_blocks mc mr M)))"
    using f(2) by (simp add: ent)
qed

lemma enter_chunk:
  assumes "list_ok (Pre @ M # Post)"
  shows "\<exists>r. new_DoclenChunkReader (doclen_tag mc mr f l M) f (fst (hd M)) = Inr r
           \<and> reader_inv (fst (hd M)) (encode_blocks mc mr M) r
           \<and> len_inv (encode_blocks mc mr M) r \<and> \<not> is_at_end r"
proof -
  note b = chunk_blocks [OF assms, of mc mr]
  have "new_DoclenChunkReader (doclen_tag mc mr f l M) f (fst (hd M))
      = new_FixedWidthChunkReader (block_bytes (fst (hd M)) (encode_blocks mc mr M)) (fst (hd M))"
    by (cases f)
       (simp_all add: new_DoclenChunkReader_def doclen_tag_def read_start_of_first_chunk_made
          read_start_of_chunk_made b(3))
  then show ?thesis
    using new_FixedWidthChunkReader_inv [OF b(1,4)] by simp
qed

lemma table_at:
  assumes t: "table_ok mc mr (Pre @ M # Post) A B t"
  obtains X where
    "t = X @ (doclen_key (Pre = []) M, doclen_tag mc mr (Pre = []) (Post = []) M)
           # (doclen_list mc mr False Post @ B)"
proof -
  obtain P where "doclen_list mc mr True (Pre @ M # Post)
      = P @ (doclen_key (True \<and> Pre = []) M, doclen_tag mc mr (True \<and> Pre = []) (Post = []) M)
          # doclen_list mc mr False Post"
    using doclen_list_split [of mc mr True Pre M Post] by blast
  then have "t = (A @ P) @ (doclen_key (Pre = []) M, doclen_tag mc mr (Pre = []) (Post = []) M)
      # (doclen_list mc mr False Post @ B)"
    using table_okD(1) [OF t] by simp
  then show ?thesis
    by (rule that)
qed

lemma take_2_prefix: "take 2 k \<noteq> [0, 0xe0] \<Longrightarrow> \<not> (\<exists>w. k = [0, 0xe0 :: byte] @ w)"
  by auto

lemma above_doclen_keys:
  assumes t: "table_ok mc mr (Pre @ M # Post) A B t" and b: "e \<in> set B"
  shows "[0, 0xe0] @ x < fst e"
proof -
  obtain X where X: "t = X @ (doclen_key (Pre = []) M, doclen_tag mc mr (Pre = []) (Post = []) M)
      # (doclen_list mc mr False Post @ B)"
    using t by (rule table_at)
  have "sorted_wrt (<) (map fst t)"
    using t by (rule table_okD)
  then have "doclen_key (Pre = []) M < fst e"
    using b unfolding X by (auto simp: sorted_wrt_append)
  moreover obtain w where "doclen_key (Pre = []) M = [0, 0xe0] @ w"
    using doclen_key_prefix by blast
  ultimately have "[0, 0xe0] @ w < fst e"
    by simp
  then have "[0, 0xe0] \<le> fst e"
    using le_append [of "[0, 0xe0]" w] by (meson less_imp_le order_trans)
  moreover have "\<not> (\<exists>w. fst e = [0, 0xe0] @ w)"
    using table_okD(3) [OF t] b by (intro take_2_prefix) blast
  ultimately show ?thesis
    by (rule above_prefix)
qed

text \<open>
  The cursor of the doclen list stands on the chunk \<open>M\<close>, between the chunks \<open>Pre\<close> and
  \<open>Post\<close>, and its reader \<open>r\<close> is on the body of \<open>M\<close>.
\<close>

definition pl_at ::
  "32 word \<Rightarrow> rat \<Rightarrow> doclen_entries list \<Rightarrow> doclen_entries \<Rightarrow> doclen_entries list
   \<Rightarrow> BrassPostList \<Rightarrow> FixedWidthChunkReader \<Rightarrow> bool" where
  "pl_at mc mr Pre M Post pl r =
     (pl_term pl = [] \<and> is_doclen_list pl
      \<and> current_key (pl_cursor pl) = doclen_key (Pre = []) M
      \<and> \<not> is_after_end (pl_cursor pl)
      \<and> pl_first_did_in_chunk pl = fst (hd M) \<and> pl_last_did_in_chunk pl = fst (last M)
      \<and> pl_is_last_chunk pl = (Post = [])
      \<and> p_doclen_chunk_reader pl = Some r
      \<and> reader_inv (fst (hd M)) (encode_blocks mc mr M) r
      \<and> len_inv (encode_blocks mc mr M) r
      \<and> pl_did pl = cur_did r)"

lemma pl_atD:
  assumes "pl_at mc mr Pre M Post pl r"
  shows "pl_term pl = []" and "is_doclen_list pl"
    and "current_key (pl_cursor pl) = doclen_key (Pre = []) M"
    and "\<not> is_after_end (pl_cursor pl)"
    and "pl_first_did_in_chunk pl = fst (hd M)" and "pl_last_did_in_chunk pl = fst (last M)"
    and "pl_is_last_chunk pl = (Post = [])"
    and "p_doclen_chunk_reader pl = Some r"
    and "reader_inv (fst (hd M)) (encode_blocks mc mr M) r"
    and "len_inv (encode_blocks mc mr M) r"
    and "pl_did pl = cur_did r"
  using assms unfolding pl_at_def by blast+

lemma read_tag_chunk:
  assumes t: "table_ok mc mr (Pre @ M # Post) A B t"
    and key: "current_key c = doclen_key (Pre = []) M"
  shows "read_tag t c = c\<lparr>current_tag := doclen_tag mc mr (Pre = []) (Post = []) M\<rparr>"
proof -
  obtain X where X: "t = X @ (doclen_key (Pre = []) M, doclen_tag mc mr (Pre = []) (Post = []) M)
      # (doclen_list mc mr False Post @ B)"
    using t by (rule table_at)
  have "sorted_wrt (<) (map fst t)"
    using t by (rule table_okD)
  then show ?thesis
    unfolding X using key by (rule read_tag_at)
qed

lemma cursor_next_chunk:
  assumes t: "table_ok mc mr (Pre @ M # M' # Post') A B t"
    and key: "current_key c = doclen_key (Pre = []) M"
  shows "cursor_next t c = c\<lparr>current_key := doclen_key False M'\<rparr>"
proof -
  obtain X where X: "t = X @ (doclen_key (Pre = []) M,
      doclen_tag mc mr (Pre = []) (M' # Post' = []) M) # (doclen_list mc mr False (M' # Post') @ B)"
    using t by (rule table_at)
  have "sorted_wrt (<) (map fst t)"
    using t by (rule table_okD)
  then have "cursor_next t c
      = (case doclen_list mc mr False (M' # Post') @ B of
           [] \<Rightarrow> c\<lparr>is_after_end := True\<rparr> | e # es \<Rightarrow> c\<lparr>current_key := fst e\<rparr>)"
    unfolding X using key by (rule cursor_next_at)
  then show ?thesis
    by simp
qed

lemma chunk_last_did: "fst (hd M) + (fst (last M) - fst (hd M)) = (fst (last M) :: docid)"
  by simp

lemma next_chunk_more:
  assumes ok: "list_ok (Pre @ M # M' # Post')"
    and t: "table_ok mc mr (Pre @ M # M' # Post') A B t"
    and at: "pl_at mc mr Pre M (M' # Post') pl r"
  shows "\<exists>pl' r'. next_chunk t pl = Inr pl' \<and> pl_at mc mr (Pre @ [M]) M' Post' pl' r'
           \<and> \<not> pl_is_at_end pl'"
proof -
  note a = pl_atD [OF at]
  have ok': "list_ok ((Pre @ [M]) @ M' # Post')" and t': "table_ok mc mr ((Pre @ [M]) @ M' # Post') A B t"
    using ok t by simp_all
  let ?c1 = "(pl_cursor pl)\<lparr>current_key := doclen_key False M'\<rparr>"
  let ?tag = "doclen_tag mc mr False (Post' = []) M'"
  have c1: "cursor_next t (pl_cursor pl) = ?c1"
    using t a(3) by (rule cursor_next_chunk)
  have c2: "read_tag t ?c1 = ?c1\<lparr>current_tag := ?tag\<rparr>"
    using read_tag_chunk [OF t', of ?c1] by simp
  have chk: "check_tname_in_key_lite (doclen_key False M') []
      = Inr (True, pack_uint_preserving_sort (fst (hd M')))"
    using check_doclen_key [of False M'] by simp
  have hdr: "read_start_of_chunk ?tag (fst (hd M'))
      = Inr (Post' = [], fst (last M'), snd (encode mc mr M' []))"
    by (simp add: doclen_tag_def read_start_of_chunk_made)
  obtain r' where r': "new_DoclenChunkReader ?tag False (fst (hd M')) = Inr r'"
    and inv: "reader_inv (fst (hd M')) (encode_blocks mc mr M') r'"
    and len: "len_inv (encode_blocks mc mr M') r'" and nae: "\<not> is_at_end r'"
    using enter_chunk [OF ok', of mc mr False "Post' = []"] by blast
  have "cur_did r \<in> fst ` set M"
    using reader_inv_cur_did [OF chunk_blocks(1) [OF ok] a(9)] chunk_blocks(2) [OF ok] by simp
  moreover have "M' \<noteq> []"
    using chunk_facts(1) [OF ok'] .
  ultimately have "cur_did r < fst (hd M')"
    using chunk_facts(7) [OF ok] by auto
  then have lt: "\<not> fst (hd M') \<le> pl_did pl"
    using a(11) by simp
  let ?pl' = "pl\<lparr>pl_cursor := ?c1\<lparr>current_tag := ?tag\<rparr>, pl_is_first_chunk := False,
      pl_did := get_docid r', pl_first_did_in_chunk := fst (hd M'),
      pl_last_did_in_chunk := fst (last M'), pl_is_last_chunk := (Post' = []),
      pl_pos := snd (encode mc mr M' []), p_doclen_chunk_reader := Some r',
      pl_wdf := get_doclen r', pl_is_at_end := at_end r'\<rparr>"
  have "next_chunk t pl = Inr ?pl'"
    using a(2,4,7) lt
    by (simp add: next_chunk_def Let_def c1 a(1) chk unpack_pack_uint_preserving_sort c2 hdr r')
  moreover have "pl_at mc mr (Pre @ [M]) M' Post' ?pl' r'"
    using a(1,2,4) inv len by (simp add: pl_at_def get_docid_def)
  moreover have "\<not> pl_is_at_end ?pl'"
    using nae by (simp add: at_end_def)
  ultimately show ?thesis
    by blast
qed

lemma next_chunk_last:
  assumes "pl_at mc mr Pre M [] pl r"
  shows "next_chunk t pl = Inr (pl\<lparr>pl_is_at_end := True\<rparr>)"
  using pl_atD(7) [OF assms] by (simp add: next_chunk_def)

lemma landing_split:
  assumes "Ms \<noteq> []"
  shows "\<exists>Pre M Post. Ms = Pre @ M # Post \<and> (Pre = [] \<or> fst (hd M) \<le> (d :: docid))
           \<and> (Post = [] \<or> d < fst (hd (hd Post)))"
  using assms
proof (induction Ms)
  case Nil
  then show ?case by simp
next
  case (Cons M0 Ms)
  show ?case
  proof (cases "Ms = []")
    case True
    then have "M0 # Ms = [] @ M0 # []"
      by simp
    then show ?thesis
      by blast
  next
    case False
    then obtain Pre M Post where s: "Ms = Pre @ M # Post" "Pre = [] \<or> fst (hd M) \<le> d"
        "Post = [] \<or> d < fst (hd (hd Post))"
      using Cons.IH by blast
    show ?thesis
    proof (cases "fst (hd (hd Ms)) \<le> d")
      case True
      have "M0 # Ms = (M0 # Pre) @ M # Post"
        by (simp add: s(1))
      moreover have "fst (hd M) \<le> d"
        using s(1,2) True by (cases Pre) auto
      ultimately show ?thesis
        using s(3) by blast
    next
      case nle: False
      have "M0 # Ms = [] @ M0 # Ms"
        by simp
      moreover have "d < fst (hd (hd Ms))"
        using nle by simp
      ultimately show ?thesis
        by blast
    qed
  qed
qed

lemma above_chunk_key:
  assumes ok: "list_ok (Pre @ M # Post)" and t: "table_ok mc mr (Pre @ M # Post) A B t"
    and hi: "Post = [] \<or> d < fst (hd (hd Post))"
  shows "\<forall>y\<in>set (doclen_list mc mr False Post @ B). make_key_did [] d < fst y"
proof (cases Post)
  case Nil
  have "\<forall>e\<in>set B. [0, 0xe0] @ pack_uint_preserving_sort d < fst e"
    using above_doclen_keys [OF t] by blast
  then show ?thesis
    by (simp add: Nil make_key_did_def)
next
  case (Cons M' Post')
  obtain X where X: "t = X @ (doclen_key (Pre = []) M, doclen_tag mc mr (Pre = []) (Post = []) M)
      # (doclen_list mc mr False Post @ B)"
    using t by (rule table_at)
  have srt: "sorted_wrt (<) (map fst (X @ (doclen_key (Pre = []) M,
      doclen_tag mc mr (Pre = []) (Post = []) M) # (doclen_list mc mr False Post @ B)))"
    using table_okD(2) [OF t] unfolding X .
  have "d < fst (hd M')"
    using hi by (simp add: Cons)
  then have "make_key_did [] d < doclen_key False M'"
    by (simp add: make_key_did_def doclen_key_def pack_uint_preserving_sort_mono)
  then have "make_key_did [] d < fst (hd (doclen_list mc mr False Post @ B))"
    by (simp add: Cons)
  moreover have "doclen_list mc mr False Post @ B \<noteq> []"
    by (simp add: Cons)
  ultimately show ?thesis
    using sorted_keys_hd [OF srt] by blast
qed

lemma find_entry_chunk:
  assumes ok: "list_ok (Pre @ M # Post)" and t: "table_ok mc mr (Pre @ M # Post) A B t"
    and lo: "Pre = [] \<or> fst (hd M) \<le> d" and hi: "Post = [] \<or> d < fst (hd (hd Post))"
  shows "snd (find_entry (make_key_did [] d) t c)
       = c\<lparr>current_key := doclen_key (Pre = []) M, is_after_end := False\<rparr>"
proof -
  obtain X where X: "t = X @ (doclen_key (Pre = []) M, doclen_tag mc mr (Pre = []) (Post = []) M)
      # (doclen_list mc mr False Post @ B)"
    using t by (rule table_at)
  have srt: "sorted_wrt (<) (map fst (X @ (doclen_key (Pre = []) M,
      doclen_tag mc mr (Pre = []) (Post = []) M) # (doclen_list mc mr False Post @ B)))"
    using table_okD(2) [OF t] unfolding X .
  have le: "doclen_key (Pre = []) M \<le> make_key_did [] d"
  proof (cases "Pre = []")
    case True
    then show ?thesis
      using le_append [of "[0, 0xe0]" "pack_uint_preserving_sort d"]
      by (simp add: doclen_key_def make_key_def make_key_did_def)
  next
    case False
    then have "fst (hd M) \<le> d"
      using lo by simp
    then have "pack_uint_preserving_sort (fst (hd M)) \<le> pack_uint_preserving_sort d"
      by (simp add: pack_uint_preserving_sort_le)
    then show ?thesis
      using False by (simp add: doclen_key_def make_key_did_def)
  qed
  show ?thesis
    unfolding X using find_entry_at [OF srt le above_chunk_key [OF ok t hi], of c] by simp
qed

lemma find_entry_first:
  assumes t: "table_ok mc mr (M # Post) A B t"
  shows "find_entry (make_key []) t c
       = (True, c\<lparr>current_key := doclen_key True M, is_after_end := False\<rparr>)"
proof -
  obtain X where X: "t = X @ (doclen_key ([] = ([] :: doclen_entries list)) M,
      doclen_tag mc mr ([] = ([] :: doclen_entries list)) (Post = []) M)
      # (doclen_list mc mr False Post @ B)"
    using table_at [of mc mr "[]" M Post A B t] t by auto
  have srt: "sorted_wrt (<) (map fst (X @ (doclen_key True M,
      doclen_tag mc mr True (Post = []) M) # (doclen_list mc mr False Post @ B)))"
    using table_okD(2) [OF t] unfolding X by simp
  then have above: "\<forall>y\<in>set (doclen_list mc mr False Post @ B). make_key [] < fst y"
    by (auto simp: sorted_wrt_append doclen_key_def)
  have "find_entry (make_key []) (X @ (doclen_key True M,
      doclen_tag mc mr True (Post = []) M) # (doclen_list mc mr False Post @ B)) c
      = (doclen_key True M = make_key [],
         c\<lparr>current_key := doclen_key True M, is_after_end := False\<rparr>)"
    using srt _ above by (rule find_entry_at) (simp add: doclen_key_def)
  then show ?thesis
    using X by (simp add: doclen_key_def)
qed

lemma pack_uint_preserving_sort_nonempty: "pack_uint_preserving_sort v \<noteq> []"
  by (simp add: pack_uint_preserving_sort_def)

lemma sorted_all_le_last:
  "sorted_wrt (<) (map fst M) \<Longrightarrow> \<forall>e\<in>set M. fst e \<le> fst (last (M :: doclen_entries))"
  using sorted_le_last by blast

lemma init_spec:
  assumes ok: "list_ok (M # Post)" and t: "table_ok mc mr (M # Post) A B t"
    and pl: "pl_term pl = []" "is_doclen_list pl"
  shows "\<exists>pl' r. init t pl = Inr (False, pl') \<and> pl_at mc mr [] M Post pl' r"
proof -
  have ok': "list_ok ([] @ M # Post)" and t': "table_ok mc mr ([] @ M # Post) A B t"
    using ok t by simp_all
  let ?c1 = "(pl_cursor pl)\<lparr>current_key := doclen_key True M, is_after_end := False\<rparr>"
  let ?tag = "doclen_tag mc mr True (Post = []) M"
  let ?body = "snd (encode mc mr M [])"
  have f: "find_entry (make_key []) t (pl_cursor pl) = (True, ?c1)"
    using t by (rule find_entry_first)
  have c2: "read_tag t ?c1 = ?c1\<lparr>current_tag := ?tag\<rparr>"
    using read_tag_chunk [OF t', of ?c1] by simp
  have h1: "read_start_of_first_chunk ?tag
      = Inr (0, 0, fst (hd M), make_start_of_chunk (Post = []) (fst (hd M)) (fst (last M)) @ ?body)"
    by (simp add: doclen_tag_def read_start_of_first_chunk_made)
  have h2: "read_start_of_chunk
      (make_start_of_chunk (Post = []) (fst (hd M)) (fst (last M)) @ ?body) (fst (hd M))
      = Inr (Post = [], fst (last M), ?body)"
    by (simp add: read_start_of_chunk_made)
  obtain r where r: "new_DoclenChunkReader ?tag True (fst (hd M)) = Inr r"
    and inv: "reader_inv (fst (hd M)) (encode_blocks mc mr M) r"
    and len: "len_inv (encode_blocks mc mr M) r"
    using enter_chunk [OF ok', of mc mr True "Post = []"] by blast
  let ?pl' = "pl\<lparr>pl_cursor := ?c1\<lparr>current_tag := ?tag\<rparr>, pl_pos := ?body,
      pl_is_first_chunk := True, pl_did := get_docid r, number_of_entries := 0,
      pl_first_did_in_chunk := fst (hd M), pl_last_did_in_chunk := fst (last M),
      pl_is_last_chunk := (Post = []), p_doclen_chunk_reader := Some r,
      pl_wdf := get_doclen r, pl_is_at_end := at_end r\<rparr>"
  have "init t pl = Inr (False, ?pl')"
    using pl(2) by (simp add: init_def pl(1) f c2 h1 h2 r Let_def)
  moreover have "pl_at mc mr [] M Post ?pl' r"
    using pl inv len by (simp add: pl_at_def get_docid_def)
  ultimately show ?thesis
    by blast
qed

lemma move_spec:
  assumes ok: "list_ok Ms" and t: "table_ok mc mr Ms A B t"
    and pl: "pl_term pl = []" "is_doclen_list pl"
  shows "\<exists>pl' Pre M Post r. move_to_chunk_containing t d pl = Inr pl'
           \<and> Ms = Pre @ M # Post \<and> pl_at mc mr Pre M Post pl' r
           \<and> (pl_is_at_end pl' \<longrightarrow> (\<forall>x\<in>set (concat Ms). fst x < d))
           \<and> (\<not> pl_is_at_end pl' \<longrightarrow> d \<le> fst (last M) \<and> (\<forall>x\<in>set (concat Pre). fst x < d))"
proof -
  have "Ms \<noteq> []"
    using ok by (simp add: list_ok_def)
  then obtain Pre M Post where Ms: "Ms = Pre @ M # Post" and lo: "Pre = [] \<or> fst (hd M) \<le> d"
    and hi: "Post = [] \<or> d < fst (hd (hd Post))"
    using landing_split [of Ms d] by blast
  note ok' = ok [unfolded Ms] and t' = t [unfolded Ms]
  note cf = chunk_facts [OF ok']
  let ?f = "Pre = []" and ?l = "Post = []"
  let ?c1 = "(pl_cursor pl)\<lparr>current_key := doclen_key ?f M, is_after_end := False\<rparr>"
  let ?tag = "doclen_tag mc mr ?f ?l M"
  let ?body = "snd (encode mc mr M [])"
  have f: "snd (find_entry (make_key_did [] d) t (pl_cursor pl)) = ?c1"
    using ok' t' lo hi by (rule find_entry_chunk)
  have c2: "read_tag t ?c1 = ?c1\<lparr>current_tag := ?tag\<rparr>"
    using read_tag_chunk [OF t', of ?c1] by simp
  have chk: "check_tname_in_key_lite (doclen_key ?f M) []
      = Inr (True, if ?f then [] else pack_uint_preserving_sort (fst (hd M)))"
    by (rule check_doclen_key)
  have h1: "read_start_of_first_chunk (doclen_tag mc mr True ?l M)
      = Inr (0, 0, fst (hd M), make_start_of_chunk ?l (fst (hd M)) (fst (last M)) @ ?body)"
    by (simp add: doclen_tag_def read_start_of_first_chunk_made)
  have h2: "read_start_of_chunk
      (make_start_of_chunk ?l (fst (hd M)) (fst (last M)) @ ?body) (fst (hd M))
      = Inr (?l, fst (last M), ?body)"
    by (simp add: read_start_of_chunk_made)
  have h3: "doclen_tag mc mr False ?l M
      = make_start_of_chunk ?l (fst (hd M)) (fst (last M)) @ ?body"
    by (simp add: doclen_tag_def)
  obtain r where r: "new_DoclenChunkReader ?tag ?f (fst (hd M)) = Inr r"
    and inv: "reader_inv (fst (hd M)) (encode_blocks mc mr M) r"
    and len: "len_inv (encode_blocks mc mr M) r" and nae: "\<not> is_at_end r"
    using enter_chunk [OF ok', of mc mr ?f ?l] by blast
  let ?pl3 = "pl\<lparr>pl_cursor := ?c1\<lparr>current_tag := ?tag\<rparr>, pl_is_first_chunk := ?f,
      pl_pos := ?body, pl_first_did_in_chunk := fst (hd M), pl_last_did_in_chunk := fst (last M),
      pl_is_last_chunk := ?l, p_doclen_chunk_reader := Some r, pl_did := get_docid r,
      pl_wdf := get_doclen r, pl_is_at_end := at_end r\<rparr>"
  have mv: "move_to_chunk_containing t d pl
      = (if d > fst (last M) then next_chunk t ?pl3 else Inr ?pl3)"
  proof (cases ?f)
    case True
    have chk': "check_tname_in_key_lite (doclen_key True M) [] = Inr (True, [])"
      using check_doclen_key [of True M] by simp
    have f': "snd (find_entry (make_key_did [] d) t (pl_cursor pl))
        = (pl_cursor pl)\<lparr>current_key := doclen_key True M, is_after_end := False\<rparr>"
      using f True by simp
    have c2': "read_tag t ((pl_cursor pl)\<lparr>current_key := doclen_key True M, is_after_end := False\<rparr>)
        = (pl_cursor pl)\<lparr>current_key := doclen_key True M, is_after_end := False,
            current_tag := doclen_tag mc mr True ?l M\<rparr>"
      using c2 True by simp
    have r': "new_DoclenChunkReader (doclen_tag mc mr True ?l M) True (fst (hd M)) = Inr r"
      using r True by simp
    have "move_to_chunk_containing t d pl
        = (if d > fst (last M)
           then next_chunk t (pl\<lparr>pl_cursor := (pl_cursor pl)\<lparr>current_key := doclen_key True M,
                    is_after_end := False, current_tag := doclen_tag mc mr True ?l M\<rparr>,
                  pl_is_first_chunk := True,
                  pl_pos := ?body, pl_first_did_in_chunk := fst (hd M), pl_last_did_in_chunk := fst (last M),
                  pl_is_last_chunk := ?l, p_doclen_chunk_reader := Some r, pl_did := get_docid r,
                  pl_wdf := get_doclen r, pl_is_at_end := at_end r\<rparr>)
           else Inr (pl\<lparr>pl_cursor := (pl_cursor pl)\<lparr>current_key := doclen_key True M,
                    is_after_end := False, current_tag := doclen_tag mc mr True ?l M\<rparr>,
                  pl_is_first_chunk := True,
                  pl_pos := ?body, pl_first_did_in_chunk := fst (hd M), pl_last_did_in_chunk := fst (last M),
                  pl_is_last_chunk := ?l, p_doclen_chunk_reader := Some r, pl_did := get_docid r,
                  pl_wdf := get_doclen r, pl_is_at_end := at_end r\<rparr>))"
      using pl(2)
      by (simp add: move_to_chunk_containing_def pl(1) f' chk' c2' h1 h2 r' Let_def)
    then show ?thesis
      using True by simp
  next
    case False
    have chk': "check_tname_in_key_lite (doclen_key False M) []
        = Inr (True, pack_uint_preserving_sort (fst (hd M)))"
      using check_doclen_key [of False M] by simp
    have f': "snd (find_entry (make_key_did [] d) t (pl_cursor pl))
        = (pl_cursor pl)\<lparr>current_key := doclen_key False M, is_after_end := False\<rparr>"
      using f False by simp
    have c2': "read_tag t ((pl_cursor pl)\<lparr>current_key := doclen_key False M, is_after_end := False\<rparr>)
        = (pl_cursor pl)\<lparr>current_key := doclen_key False M, is_after_end := False,
            current_tag := make_start_of_chunk ?l (fst (hd M)) (fst (last M)) @ ?body\<rparr>"
      using c2 False h3 by simp
    have r': "new_DoclenChunkReader (make_start_of_chunk ?l (fst (hd M)) (fst (last M)) @ ?body)
        False (fst (hd M)) = Inr r"
      using r False h3 by simp
    have "move_to_chunk_containing t d pl
        = (if d > fst (last M)
           then next_chunk t (pl\<lparr>pl_cursor := (pl_cursor pl)\<lparr>current_key := doclen_key False M,
                    is_after_end := False,
                    current_tag := make_start_of_chunk ?l (fst (hd M)) (fst (last M)) @ ?body\<rparr>,
                  pl_is_first_chunk := False,
                  pl_pos := ?body, pl_first_did_in_chunk := fst (hd M), pl_last_did_in_chunk := fst (last M),
                  pl_is_last_chunk := ?l, p_doclen_chunk_reader := Some r, pl_did := get_docid r,
                  pl_wdf := get_doclen r, pl_is_at_end := at_end r\<rparr>)
           else Inr (pl\<lparr>pl_cursor := (pl_cursor pl)\<lparr>current_key := doclen_key False M,
                    is_after_end := False,
                    current_tag := make_start_of_chunk ?l (fst (hd M)) (fst (last M)) @ ?body\<rparr>,
                  pl_is_first_chunk := False,
                  pl_pos := ?body, pl_first_did_in_chunk := fst (hd M), pl_last_did_in_chunk := fst (last M),
                  pl_is_last_chunk := ?l, p_doclen_chunk_reader := Some r, pl_did := get_docid r,
                  pl_wdf := get_doclen r, pl_is_at_end := at_end r\<rparr>))"
      using pl(2)
      by (simp add: move_to_chunk_containing_def pl(1) f' chk' c2' h2 r' Let_def
          pack_uint_preserving_sort_nonempty unpack_pack_uint_preserving_sort)
    then show ?thesis
      using False h3 by simp
  qed
  have at3: "pl_at mc mr Pre M Post ?pl3 r"
    using pl inv len by (simp add: pl_at_def get_docid_def)
  have nae3: "\<not> pl_is_at_end ?pl3"
    using nae by (simp add: at_end_def)
  have pre_below: "\<forall>x\<in>set (concat Pre). fst x < d" if "fst (hd M) \<le> d \<or> Pre = []"
  proof (cases "Pre = []")
    case True
    then show ?thesis by simp
  next
    case False
    then have "fst (hd M) \<le> d"
      using lo by simp
    moreover have "hd M \<in> set M"
      using cf(1) by simp
    ultimately show ?thesis
      using cf(6) by (meson order_less_le_trans)
  qed
  have m_le: "\<forall>e\<in>set M. fst e \<le> fst (last M)"
    using cf(2) by (rule sorted_all_le_last)
  show ?thesis
  proof (cases "d > fst (last M)")
    case False
    then have "move_to_chunk_containing t d pl = Inr ?pl3"
      using mv by simp
    moreover have "d \<le> fst (last M)"
      using False by simp
    moreover have "\<forall>x\<in>set (concat Pre). fst x < d"
      using lo by (intro pre_below) blast
    ultimately show ?thesis
      using Ms at3 nae3 by blast
  next
    case gt: True
    have m_below: "\<forall>e\<in>set M. fst e < d"
      using m_le gt by (meson order_le_less_trans)
    have "hd M \<in> set M"
      using cf(1) by simp
    then have "fst (hd M) \<le> d"
      using m_below by (meson less_imp_le)
    then have p_below: "\<forall>x\<in>set (concat Pre). fst x < d"
      by (intro pre_below) simp
    show ?thesis
    proof (cases Post)
      case Nil
      define pl4 where "pl4 = ?pl3\<lparr>pl_is_at_end := True\<rparr>"
      have "next_chunk t ?pl3 = Inr pl4"
        unfolding pl4_def using at3 unfolding Nil by (rule next_chunk_last)
      then have "move_to_chunk_containing t d pl = Inr pl4"
        using mv gt by simp
      moreover have "pl_at mc mr Pre M Post pl4 r"
        using at3 by (simp add: pl_at_def pl4_def)
      moreover have "\<forall>x\<in>set (concat Ms). fst x < d"
        using p_below m_below by (auto simp: Ms Nil)
      moreover have "pl_is_at_end pl4"
        by (simp add: pl4_def)
      ultimately show ?thesis
        using Ms by blast
    next
      case (Cons M' Post')
      note ok'' = ok' [unfolded Cons] and t'' = t' [unfolded Cons]
      obtain pl' r' where nc: "next_chunk t ?pl3 = Inr pl'"
        and at': "pl_at mc mr (Pre @ [M]) M' Post' pl' r'" and nae': "\<not> pl_is_at_end pl'"
        using next_chunk_more [OF ok'' t'' at3 [unfolded Cons]] unfolding Cons by blast
      have mv': "move_to_chunk_containing t d pl = Inr pl'"
        using mv gt nc by simp
      have ok3: "list_ok ((Pre @ [M]) @ M' # Post')"
        using ok'' by simp
      have "d < fst (hd M')"
        using hi by (simp add: Cons)
      moreover have "hd M' \<in> set M'"
        using chunk_facts(1) [OF ok3] by simp
      moreover have "\<forall>e\<in>set M'. fst e \<le> fst (last M')"
        using chunk_facts(2) [OF ok3] by (rule sorted_all_le_last)
      ultimately have "d \<le> fst (last M')"
        by (meson less_imp_le order_trans)
      moreover have "\<forall>x\<in>set (concat (Pre @ [M])). fst x < d"
        using p_below m_below by auto
      moreover have "Ms = (Pre @ [M]) @ M' # Post'"
        by (simp add: Ms Cons)
      ultimately show ?thesis
        using mv' at' nae' by blast
    qed
  qed
qed

lemma jump_to_in_chunk_spec:
  assumes ok: "list_ok (Pre @ M # Post)" and at: "pl_at mc mr Pre M Post pl r"
    and le: "d \<le> fst (last M)" and below: "\<forall>x\<in>set (concat Pre). fst x < d"
  shows "\<exists>b pl' r'. jump_to_in_chunk d pl = Inr (b, pl') \<and> pl_at mc mr Pre M Post pl' r'
           \<and> (b \<longleftrightarrow> d \<in> fst ` set (concat (Pre @ M # Post)))
           \<and> (b \<longrightarrow> pl_did pl' = d)
           \<and> (\<not> b \<longrightarrow> pl_did pl' \<in> fst ` set (concat (Pre @ M # Post)) \<and> d < pl_did pl'
                 \<and> (\<forall>x\<in>fst ` set (concat (Pre @ M # Post)). d < x \<longrightarrow> pl_did pl' \<le> x))"
proof -
  note a = pl_atD [OF at]
  note cf = chunk_facts [OF ok]
  note cb = chunk_blocks [OF ok, of mc mr]
  let ?D = "fst ` set (concat (Pre @ M # Post))"
  obtain b r' where j: "jump_to d r = Inr (b, r')"
    and inv: "reader_inv (fst (hd M)) (encode_blocks mc mr M) r'"
    and len: "len_inv (encode_blocks mc mr M) r'"
    and jr: "jump_result (fst ` set M) d b r'"
    using jump_to_spec [OF cb(1,5) a(9,10), of d] by (auto simp: cb(2))
  have cur: "cur_did r' \<in> fst ` set M"
    using reader_inv_cur_did [OF cb(1) inv] by (simp add: cb(2))
  have lenm1: "cur_length r' \<noteq> - 1"
    using len cf(5) by (auto simp: len_inv_def cb(2))
  have pre_ne: "d \<notin> fst ` set (concat Pre)"
    using below by (auto simp del: set_concat)
  have m_le: "\<forall>e\<in>set M. fst e \<le> fst (last M)"
    using cf(2) sorted_le_last by blast
  have post_gt: "\<forall>y\<in>set (concat Post). fst (last M) < fst y"
    using cf(7) cf(1) by (simp del: set_concat)
  have post_ne: "d \<notin> fst ` set (concat Post)"
    using post_gt le by (auto simp del: set_concat)
  have D: "?D = fst ` set (concat Pre) \<union> fst ` set M \<union> fst ` set (concat Post)"
    by (simp add: image_Un Un_assoc)
  have mem: "d \<in> ?D \<longleftrightarrow> d \<in> fst ` set M"
    unfolding D using pre_ne post_ne by blast
  show ?thesis
  proof (cases b)
    case True
    then have did: "cur_did r' = d" and dm: "d \<in> fst ` set M"
      using jr by (simp_all add: jump_result_def)
    let ?pl' = "pl\<lparr>p_doclen_chunk_reader := Some r', pl_wdf := cur_length r',
        pl_is_at_end := at_end r', pl_did := get_docid r'\<rparr>"
    have "jump_to_in_chunk d pl = Inr (True, ?pl')"
      using True lenm1
      by (simp add: jump_to_in_chunk_def a(8) get_doclen_at_def j get_doclen_def Let_def)
    moreover have "pl_at mc mr Pre M Post ?pl' r'"
      using at inv len by (simp add: pl_at_def get_docid_def)
    moreover have "pl_did ?pl' = d"
      using did by (simp add: get_docid_def)
    ultimately show ?thesis
      using mem dm True by blast
  next
    case False
    then have nm: "d \<notin> fst ` set M"
      using jr by (simp add: jump_result_def)
    have "last M \<in> set M"
      using cf(1) by simp
    then have "fst (last M) \<in> fst ` set M"
      by blast
    then have "d \<noteq> fst (last M)"
      using nm by metis
    then have "d < fst (last M)"
      using le by (simp add: order_less_le)
    then have ex: "\<exists>x\<in>fst ` set M. d < x"
      using \<open>fst (last M) \<in> fst ` set M\<close> by blast
    then have gt: "d < cur_did r'" and least: "\<forall>x\<in>fst ` set M. d < x \<longrightarrow> cur_did r' \<le> x"
      using jr False unfolding jump_result_def by blast+
    let ?pl' = "pl\<lparr>p_doclen_chunk_reader := Some r', pl_is_at_end := at_end r',
        pl_wdf := get_doclen r', pl_did := get_docid r'\<rparr>"
    have eq: "jump_to_in_chunk d pl = Inr (False, ?pl')"
      using False
      by (simp add: jump_to_in_chunk_def a(8) get_doclen_at_def j Let_def)
    have at': "pl_at mc mr Pre M Post ?pl' r'"
      using at inv len by (simp add: pl_at_def get_docid_def)
    have pd: "pl_did ?pl' = cur_did r'"
      by (simp add: get_docid_def)
    have inD: "cur_did r' \<in> ?D"
      unfolding D using cur by blast
    have min: "\<forall>x\<in>?D. d < x \<longrightarrow> cur_did r' \<le> x"
    proof (intro ballI impI)
      fix x
      assume "x \<in> ?D" and dx: "d < x"
      then consider "x \<in> fst ` set (concat Pre)" | "x \<in> fst ` set M"
        | "x \<in> fst ` set (concat Post)"
        unfolding D by blast
      then show "cur_did r' \<le> x"
      proof cases
        case 1
        then have "x < d"
          using below by (auto simp del: set_concat)
        then show ?thesis
          using dx by simp
      next
        case 2
        then show ?thesis
          using least dx by blast
      next
        case 3
        then have "fst (last M) < x"
          using post_gt by (auto simp del: set_concat)
        moreover have "cur_did r' \<le> fst (last M)"
          using cur m_le by auto
        ultimately show ?thesis
          by simp
      qed
    qed
    show ?thesis
    proof (intro exI conjI)
      show "jump_to_in_chunk d pl = Inr (False, ?pl')"
        by (rule eq)
      show "pl_at mc mr Pre M Post ?pl' r'"
        by (rule at')
      show "False \<longleftrightarrow> d \<in> ?D"
        using mem nm by simp
      show "False \<longrightarrow> pl_did ?pl' = d"
        by simp
      show "\<not> False \<longrightarrow> pl_did ?pl' \<in> ?D \<and> d < pl_did ?pl'
          \<and> (\<forall>x\<in>?D. d < x \<longrightarrow> pl_did ?pl' \<le> x)"
        unfolding pd using inD gt min by blast
    qed
  qed
qed

text \<open>The cursor of the doclen list stands on one of the chunks \<open>Ms\<close>.\<close>

definition pl_inv :: "32 word \<Rightarrow> rat \<Rightarrow> doclen_entries list \<Rightarrow> BrassPostList \<Rightarrow> bool" where
  "pl_inv mc mr Ms pl =
     (\<exists>Pre M Post r. Ms = Pre @ M # Post \<and> pl_at mc mr Pre M Post pl r)"

lemma pl_at_have_started [simp]:
  "pl_at mc mr Pre M Post (pl\<lparr>have_started := b\<rparr>) r = pl_at mc mr Pre M Post pl r"
  by (simp add: pl_at_def)

lemma pl_at_is_at_end [simp]:
  "pl_at mc mr Pre M Post (pl\<lparr>pl_is_at_end := b\<rparr>) r = pl_at mc mr Pre M Post pl r"
  by (simp add: pl_at_def)

lemma pl_jump_to_spec:
  assumes ok: "list_ok Ms" and t: "table_ok mc mr Ms A B t" and inv: "pl_inv mc mr Ms pl"
  shows "\<exists>b pl'. pl_jump_to False t d pl = Inr (b, pl') \<and> pl_inv mc mr Ms pl'
           \<and> (b \<longleftrightarrow> d \<in> fst ` set (concat Ms))
           \<and> (b \<longrightarrow> pl_did pl' = d)
           \<and> (\<not> b \<longrightarrow> pl_is_at_end pl'
                 \<or> (pl_did pl' \<in> fst ` set (concat Ms) \<and> d < pl_did pl'
                    \<and> (\<forall>x\<in>fst ` set (concat Ms). d < x \<longrightarrow> pl_did pl' \<le> x)))"
proof -
  let ?D = "fst ` set (concat Ms)"
  obtain Pre M Post r where Ms: "Ms = Pre @ M # Post" and at: "pl_at mc mr Pre M Post pl r"
    using inv unfolding pl_inv_def by blast
  note a = pl_atD [OF at]
  define pl0 where "pl0 = pl\<lparr>have_started := True\<rparr>"
  have at0: "pl_at mc mr Pre M Post pl0 r"
    using at by (simp add: pl0_def)
  define moving where "moving \<longleftrightarrow>
    pl_is_at_end pl0 \<or> \<not> current_chunk_contains d pl0 \<or> d < pl_did pl0"
  have tail: "\<exists>b pl'. jump_to_in_chunk d pl1 = Inr (b, pl') \<and> pl_inv mc mr Ms pl'
      \<and> (b \<longleftrightarrow> d \<in> ?D) \<and> (b \<longrightarrow> pl_did pl' = d)
      \<and> (\<not> b \<longrightarrow> pl_is_at_end pl'
            \<or> (pl_did pl' \<in> ?D \<and> d < pl_did pl' \<and> (\<forall>x\<in>?D. d < x \<longrightarrow> pl_did pl' \<le> x)))"
    if s: "Ms = Pre1 @ M1 # Post1" and at1: "pl_at mc mr Pre1 M1 Post1 pl1 r1"
      and le: "d \<le> fst (last M1)" and below: "\<forall>x\<in>set (concat Pre1). fst x < d"
    for pl1 Pre1 M1 Post1 r1
  proof -
    obtain b pl' r' where "jump_to_in_chunk d pl1 = Inr (b, pl')"
      and "pl_at mc mr Pre1 M1 Post1 pl' r'"
      and "b \<longleftrightarrow> d \<in> fst ` set (concat (Pre1 @ M1 # Post1))" and "b \<longrightarrow> pl_did pl' = d"
      and "\<not> b \<longrightarrow> pl_did pl' \<in> fst ` set (concat (Pre1 @ M1 # Post1)) \<and> d < pl_did pl'
         \<and> (\<forall>x\<in>fst ` set (concat (Pre1 @ M1 # Post1)). d < x \<longrightarrow> pl_did pl' \<le> x)"
      using jump_to_in_chunk_spec [OF ok [unfolded s] at1 le below] by blast
    moreover from this(2) have "pl_inv mc mr Ms pl'"
      unfolding pl_inv_def using s by blast
    ultimately show ?thesis
      unfolding s by blast
  qed
  show ?thesis
  proof (cases moving)
    case True
    obtain pl1 Pre1 M1 Post1 r1
      where mv: "move_to_chunk_containing t d (pl0\<lparr>pl_is_at_end := False\<rparr>) = Inr pl1"
        and s: "Ms = Pre1 @ M1 # Post1" and at1: "pl_at mc mr Pre1 M1 Post1 pl1 r1"
        and ended: "pl_is_at_end pl1 \<longrightarrow> (\<forall>x\<in>set (concat Ms). fst x < d)"
        and inside: "\<not> pl_is_at_end pl1 \<longrightarrow>
          d \<le> fst (last M1) \<and> (\<forall>x\<in>set (concat Pre1). fst x < d)"
    proof -
      have "pl_term (pl0\<lparr>pl_is_at_end := False\<rparr>) = []"
        and "is_doclen_list (pl0\<lparr>pl_is_at_end := False\<rparr>)"
        using pl_atD(1,2) [OF at0] by simp_all
      from move_spec [OF ok t this, of d] show ?thesis
        using that by blast
    qed
    have eq: "pl_jump_to False t d pl
        = (if pl_is_at_end pl1 then Inr (False, pl1) else jump_to_in_chunk d pl1)"
      using True mv by (simp add: pl_jump_to_def Let_def pl0_def [symmetric] moving_def)
    show ?thesis
    proof (cases "pl_is_at_end pl1")
      case e: True
      then have "d \<notin> ?D"
        using ended by (auto simp del: set_concat)
      moreover have "pl_inv mc mr Ms pl1"
        unfolding pl_inv_def using s at1 by blast
      moreover have "pl_jump_to False t d pl = Inr (False, pl1)"
        using eq e by simp
      ultimately show ?thesis
        using e by blast
    next
      case False
      then have "pl_jump_to False t d pl = jump_to_in_chunk d pl1"
        using eq by simp
      then show ?thesis
        using tail [OF s at1] inside False by simp
    qed
  next
    case False
    then have nm: "\<not> pl_is_at_end pl0" "current_chunk_contains d pl0"
      by (simp_all add: moving_def)
    have eq: "pl_jump_to False t d pl = jump_to_in_chunk d pl0"
      using False by (simp add: pl_jump_to_def Let_def pl0_def [symmetric] moving_def)
    have range: "fst (hd M) \<le> d" "d \<le> fst (last M)"
      using nm(2) pl_atD(5,6) [OF at0] by (simp_all add: current_chunk_contains_def)
    have "hd M \<in> set M"
      using chunk_facts(1) [OF ok [unfolded Ms]] by simp
    then have "\<forall>x\<in>set (concat Pre). fst x < d"
      using chunk_facts(6) [OF ok [unfolded Ms]] range(1) by (meson order_less_le_trans)
    then show ?thesis
      using tail [OF Ms at0 range(2)] eq by simp
  qed
qed

lemma pl_next_spec:
  assumes ok: "list_ok Ms" and t: "table_ok mc mr Ms A B t" and inv: "pl_inv mc mr Ms pl"
  shows "\<exists>pl'. pl_next t pl = Inr pl' \<and> pl_inv mc mr Ms pl'"
proof (cases "have_started pl")
  case False
  then have "pl_next t pl = Inr (pl\<lparr>have_started := True\<rparr>)"
    by (simp add: pl_next_def)
  moreover have "pl_inv mc mr Ms (pl\<lparr>have_started := True\<rparr>)"
    using inv by (simp add: pl_inv_def)
  ultimately show ?thesis
    by blast
next
  case True
  obtain Pre M Post r where Ms: "Ms = Pre @ M # Post" and at: "pl_at mc mr Pre M Post pl r"
    using inv unfolding pl_inv_def by blast
  note a = pl_atD [OF at]
  note cb = chunk_blocks [OF ok [unfolded Ms], of mc mr]
  obtain b r' where nx: "fwcr_next r = Inr (b, r')"
    and inv': "reader_inv (fst (hd M)) (encode_blocks mc mr M) r'"
    and len': "len_inv (encode_blocks mc mr M) r'" and same: "\<not> b \<longrightarrow> cur_did r' = cur_did r"
    using fwcr_next_inv [OF cb(1) a(9,10)] by blast
  show ?thesis
  proof (cases b)
    case b: True
    let ?pl' = "pl\<lparr>p_doclen_chunk_reader := Some r', pl_did := get_docid r',
        pl_wdf := get_doclen r', pl_is_at_end := at_end r'\<rparr>"
    have "pl_next t pl = Inr ?pl'"
      using True b by (simp add: pl_next_def next_in_chunk_def a(2,8) nx)
    moreover have "pl_at mc mr Pre M Post ?pl' r'"
      using at inv' len' by (simp add: pl_at_def get_docid_def)
    ultimately show ?thesis
      unfolding pl_inv_def using Ms by blast
  next
    case nb: False
    define pl1 where "pl1 = pl\<lparr>p_doclen_chunk_reader := Some r', pl_is_at_end := at_end r'\<rparr>"
    have eq: "pl_next t pl = next_chunk t pl1"
      using True nb by (simp add: pl_next_def next_in_chunk_def a(2,8) nx pl1_def)
    have at1: "pl_at mc mr Pre M Post pl1 r'"
      using at inv' len' same nb by (simp add: pl_at_def pl1_def)
    show ?thesis
    proof (cases Post)
      case Nil
      have "next_chunk t pl1 = Inr (pl1\<lparr>pl_is_at_end := True\<rparr>)"
        using at1 unfolding Nil by (rule next_chunk_last)
      moreover have "pl_at mc mr Pre M Post (pl1\<lparr>pl_is_at_end := True\<rparr>) r'"
        using at1 by simp
      then have "pl_inv mc mr Ms (pl1\<lparr>pl_is_at_end := True\<rparr>)"
        unfolding pl_inv_def using Ms by blast
      ultimately show ?thesis
        using eq by simp
    next
      case (Cons M' Post')
      obtain pl' r'' where nc: "next_chunk t pl1 = Inr pl'"
        and at': "pl_at mc mr (Pre @ [M]) M' Post' pl' r''"
        using next_chunk_more [OF ok [unfolded Ms Cons] t [unfolded Ms Cons] at1 [unfolded Cons]]
        by blast
      have "Ms = (Pre @ [M]) @ M' # Post'"
        by (simp add: Ms Cons)
      then have "pl_inv mc mr Ms pl'"
        unfolding pl_inv_def using at' by blast
      moreover have "pl_next t pl = Inr pl'"
        using eq nc by simp
      ultimately show ?thesis
        by blast
    qed
  qed
qed

section \<open>Jumping in the doclen list\<close>

text \<open>
  The states of a \<open>BrassPostList\<close> over the doclen list of the table \<open>t\<close>: the state in
  which \<open>init()\<close> leaves the object the constructor made for the empty term (the list was
  found, so \<open>pos\<close> is not null), and every state a call of \<open>next()\<close> or \<open>jump_to()\<close> leads
  to from such a state.
\<close>

inductive pl_reachable :: "table \<Rightarrow> BrassPostList \<Rightarrow> bool" for t :: table where
  constructed:
    "pl_term pl0 = [] \<Longrightarrow> is_doclen_list pl0 \<Longrightarrow> init t pl0 = Inr (False, pl)
     \<Longrightarrow> pl_reachable t pl"
| after_next: "pl_reachable t pl \<Longrightarrow> pl_next t pl = Inr pl' \<Longrightarrow> pl_reachable t pl'"
| after_jump_to:
    "pl_reachable t pl \<Longrightarrow> pl_jump_to False t d pl = Inr (b, pl') \<Longrightarrow> pl_reachable t pl'"

lemma pl_reachable_inv:
  assumes "pl_reachable t pl" and ok: "list_ok Ms" and t: "table_ok mc mr Ms A B t"
  shows "pl_inv mc mr Ms pl"
  using assms(1)
proof (induction rule: pl_reachable.induct)
  case (constructed pl0 pl)
  obtain M Post where Ms: "Ms = M # Post"
    using ok by (cases Ms) (auto simp: list_ok_def)
  obtain pl' r where "init t pl0 = Inr (False, pl')" and "pl_at mc mr [] M Post pl' r"
    using init_spec [OF ok [unfolded Ms] t [unfolded Ms] constructed(1,2)] by blast
  then have "pl_at mc mr [] M Post pl r"
    using constructed(3) by simp
  then show ?case
    unfolding pl_inv_def using Ms by (metis append_Nil)
next
  case (after_next pl pl')
  then show ?case
    using pl_next_spec [OF ok t, of pl] by auto
next
  case (after_jump_to pl d b pl')
  then show ?case
    using pl_jump_to_spec [OF ok t, of pl d] by auto
qed

lemma doclen_example_bodies:
  "snd (encode 2 (4 / 5) [(1, 7), (2, 8)] []) = [0, 7, 1, 8]"
  "snd (encode 2 (4 / 5) [(5, 3), (6, 4)] []) = [0, 3, 1, 4]"
  by (simp_all add: encode_block_bytes encode_blocks.simps get_max_bytes_small ratio_below_def
      Let_def pack_uint_small)

lemma doclen_example_list:
  "doclen_list 2 (4 / 5) True [[(1, 7), (2, 8)], [(5, 3), (6, 4)]]
     = [([0, 0xe0], [0, 0, 0, 0x30, 1, 0, 7, 1, 8]), ([0, 0xe0, 1, 5], [0x31, 1, 0, 3, 1, 4])]"
  by (simp add: doclen_key_def doclen_tag_def make_key_def make_key_did_def
      pack_uint_preserving_sort_def be_bytes.simps make_start_of_first_chunk_def
      make_start_of_chunk_def pack_bool_def pack_uint_small doclen_example_bodies)

text \<open>
  C1: the table holds the doclen list that the doclen writer wrote for the chunks \<open>Ms\<close>
  (each chunk not empty and of fewer than 65536 entries, the docids increasing through
  the list and not 0, no length the \<open>-1\<close> that marks a deletion), in key order among
  other entries \<open>A\<close> and \<open>B\<close>, no key of \<open>B\<close> starting with the bytes \<open>00 e0\<close> of the doclen
  keys. The cursor of the doclen list is in any state reached from its constructor by
  calls of \<open>next()\<close> and \<open>jump_to()\<close>. Then \<open>jump_to(d)\<close> returns; it returns true exactly
  when \<open>d\<close> is a docid of the list, and then the current docid is \<open>d\<close>; when it returns
  false, the cursor is at the end or the current docid is the smallest docid of the list
  strictly greater than \<open>d\<close>.
\<close>

theorem jump_to_guarantee:
  assumes "Ms \<noteq> []" and "\<forall>M\<in>set Ms. M \<noteq> [] \<and> length M < 65536"
    and "sorted_wrt (<) (map fst (concat Ms))"
    and "\<forall>e\<in>set (concat Ms). fst e \<noteq> 0 \<and> snd e \<noteq> - 1"
    and "t = A @ doclen_list min_contig min_ratio True Ms @ B"
    and "sorted_wrt (<) (map fst t)"
    and "\<forall>e\<in>set B. take 2 (fst e) \<noteq> [0, 0xe0]"
    and "pl_reachable t pl"
  shows "\<exists>b pl'. pl_jump_to False t d pl = Inr (b, pl')
           \<and> (b \<longleftrightarrow> d \<in> fst ` set (concat Ms))
           \<and> (b \<longrightarrow> pl_did pl' = d)
           \<and> (\<not> b \<longrightarrow> pl_is_at_end pl'
                 \<or> (pl_did pl' \<in> fst ` set (concat Ms) \<and> d < pl_did pl'
                    \<and> (\<forall>x\<in>fst ` set (concat Ms). d < x \<longrightarrow> pl_did pl' \<le> x)))"
proof -
  have ok: "list_ok Ms"
    unfolding list_ok_def using assms(1-4) by blast
  have t: "table_ok min_contig min_ratio Ms A B t"
    unfolding table_ok_def using assms(5-7) by blast
  have "pl_inv min_contig min_ratio Ms pl"
    using assms(8) ok t by (rule pl_reachable_inv)
  from pl_jump_to_spec [OF ok t this, of d] show ?thesis
    by blast
qed

theorem jump_to_guarantee_witness:
  "\<exists>pl pl'.
     init [([0, 0xe0], [0, 0, 0, 0x30, 1, 0, 7, 1, 8]), ([0, 0xe0, 1, 5], [0x31, 1, 0, 3, 1, 4])]
       \<lparr>pl_term = [], have_started = False, pl_is_at_end = False, pl_cursor = cursor_get,
        p_doclen_chunk_reader = None, is_doclen_list = True, pl_pos = [], pl_did = 0,
        pl_wdf = 0, pl_first_did_in_chunk = 0, pl_last_did_in_chunk = 0,
        pl_is_first_chunk = False, pl_is_last_chunk = False, number_of_entries = 0\<rparr>
       = Inr (False, pl)
     \<and> pl_jump_to False
         [([0, 0xe0], [0, 0, 0, 0x30, 1, 0, 7, 1, 8]), ([0, 0xe0, 1, 5], [0x31, 1, 0, 3, 1, 4])]
         3 pl = Inr (False, pl')
     \<and> (pl_is_at_end pl' \<or> pl_did pl' = 5)"
proof -
  let ?t = "[([0, 0xe0], [0, 0, 0, 0x30, 1, 0, 7, 1, 8]), ([0, 0xe0, 1, 5], [0x31, 1, 0, 3, 1, 4])]
    :: table"
  let ?Ms = "[[(1, 7), (2, 8)], [(5, 3), (6, 4)]] :: doclen_entries list"
  let ?pl0 = "\<lparr>pl_term = [], have_started = False, pl_is_at_end = False, pl_cursor = cursor_get,
      p_doclen_chunk_reader = None, is_doclen_list = True, pl_pos = [], pl_did = 0,
      pl_wdf = 0, pl_first_did_in_chunk = 0, pl_last_did_in_chunk = 0,
      pl_is_first_chunk = False, pl_is_last_chunk = False, number_of_entries = 0\<rparr>
    :: BrassPostList"
  have t: "?t = [] @ doclen_list 2 (4 / 5) True ?Ms @ []"
    unfolding doclen_example_list by simp
  have ok: "list_ok ?Ms"
    by (simp add: list_ok_def)
  have tok: "table_ok 2 (4 / 5) ?Ms [] [] ?t"
    unfolding table_ok_def doclen_example_list by simp
  obtain pl r where i: "init ?t ?pl0 = Inr (False, pl)"
    using init_spec [OF ok tok, of ?pl0] by auto
  then have reach: "pl_reachable ?t pl"
    by (intro pl_reachable.constructed [of ?pl0]) simp_all
  obtain b pl' where j: "pl_jump_to False ?t 3 pl = Inr (b, pl')"
    and b: "b \<longleftrightarrow> 3 \<in> fst ` set (concat ?Ms)"
    and f: "\<not> b \<longrightarrow> pl_is_at_end pl'
         \<or> (pl_did pl' \<in> fst ` set (concat ?Ms) \<and> 3 < pl_did pl'
            \<and> (\<forall>x\<in>fst ` set (concat ?Ms). 3 < x \<longrightarrow> pl_did pl' \<le> x))"
    using jump_to_guarantee [of ?Ms ?t "[]" 2 "4 / 5" "[]" pl 3, OF _ _ _ _ t _ _ reach]
    by auto
  have nb: "\<not> b"
    using b by simp
  then have "pl_is_at_end pl' \<or> pl_did pl' = 5"
    using f by auto
  moreover have "pl_jump_to False ?t 3 pl = Inr (False, pl')"
    using j nb by simp
  ultimately show ?thesis
    using i by (intro exI [of _ pl] exI [of _ pl']) simp
qed

end
